theory Spec2Isabelle
  imports Complex_Main
begin

section \<open>The environment of \<open>ImageCompressorCore\<close>\<close>

text \<open>
  The program (\<^verbatim>\<open>src/tpys.py\<close>) works on files and on decoded images through
  \<^verbatim>\<open>os\<close>, \<^verbatim>\<open>shutil\<close>, \<^verbatim>\<open>time\<close> and Pillow. The embedding passes an explicit
  world through every call. The world holds the file system (a map from paths to files),
  the log sink (\<^verbatim>\<open>self.log\<close>), a trace of the calls made so far, and a tape of
  pending faults: every call that can raise takes the next entry of the tape and raises
  when it is \<open>True\<close> (an empty tape means no injected fault). A theorem that holds for
  every world therefore holds for every pattern of transient failures.
  Every exception is caught in the source by \<^verbatim>\<open>except Exception\<close> or a bare
  \<^verbatim>\<open>except\<close>, so a raising call returns \<open>None\<close> and carries no exception value.

  What the embedding takes from outside the source: sizes in kilobytes are rationals
  (with an infinite size beside them), and the two float operations of step 5 are rounded
  as binary64 rounds them; paths are split at \<^verbatim>\<open>/\<close> and lowercased on the ASCII letters;
  two paths name the same file only when they are spelled the same (a file system that
  tells upper case from lower case, with no links); a call of \<^verbatim>\<open>os\<close> or \<^verbatim>\<open>shutil\<close> that
  raises leaves the file system as it was; and Pillow's \<^verbatim>\<open>resize\<close> returns an image of
  the size it was asked for.
\<close>

type_synonym path = string
type_synonym bytes = "nat list"

record disk_file =
  content :: bytes
  writable :: bool

datatype mode = ModeRGB | ModeRGBA | ModeLA | ModeP | ModeL | Mode1 | ModePA | ModeOther

record image =
  mode :: mode
  width :: nat
  height :: nat
  transparency :: bool
  pixels :: nat

text \<open>Sizes in kilobytes as Python computes them: a float that may be \<^verbatim>\<open>float('inf')\<close>.
  Dividing a byte count by 1024 is exact in binary floating point, so finite sizes are
  rationals.\<close>

datatype kb = KB rat | PosInf

fun kb_less :: "kb \<Rightarrow> kb \<Rightarrow> bool" where
  "kb_less (KB a) (KB b) = (a < b)"
| "kb_less (KB a) PosInf = True"
| "kb_less PosInf _ = False"

fun kb_le :: "kb \<Rightarrow> kb \<Rightarrow> bool" where
  "kb_le (KB a) (KB b) = (a \<le> b)"
| "kb_le _ PosInf = True"
| "kb_le PosInf (KB b) = False"

datatype event =
    EvChmod path bool
  | EvGetSize path "nat option"
  | EvOpen path bool
  | EvConvert bool
  | EvResize nat nat bool
  | EvSave path int bool
  | EvCopy path path bool
  | EvRemove path bool
  | EvReplace path path bool
  | EvSleep nat

datatype logmsg =
    LogChmodFailed
  | LogReplaceFailed
  | LogConvertFailed
  | LogEncodeFailed int
  | LogFinalEncodeFailed
  | LogPermissionError path
  | LogUnreadable path
  | LogOpenFailed path
  | LogResized nat nat nat nat
  | LogAlreadySatisfied path rat
  | LogBackupFailed
  | LogMinDimension nat nat
  | LogShrink nat nat
  | LogDone path rat
  | LogDeleted path
  | LogDeleteFailed
  | LogSaveFailed path
  | LogException path

record world =
  files :: "path \<Rightarrow> disk_file option"
  faults :: "bool list"
  trace :: "event list"
  logs :: "logmsg list"

text \<open>Pillow, as far as the program uses it: what a file decodes to (the image and its
  format name), the JPEG bytes of an image at a quality, and the pixel data that
  compositing, conversion and resampling produce.\<close>

record codec =
  decode :: "bytes \<Rightarrow> (image \<times> string) option"
  encode :: "image \<Rightarrow> int \<Rightarrow> bytes"
  composite :: "image \<Rightarrow> nat"
  convert :: "image \<Rightarrow> nat"
  resample :: "image \<Rightarrow> nat \<Rightarrow> nat \<Rightarrow> nat"

record config =
  target_size_kb :: int
  backup :: bool
  auto_resize :: bool
  max_dimension :: int

definition MIN_Q :: int where "MIN_Q = 10"
definition MIN_DIMENSION :: nat where "MIN_DIMENSION = 50"
definition MAX_ATTEMPTS :: nat where "MAX_ATTEMPTS = 5"

definition emit :: "event \<Rightarrow> world \<Rightarrow> world" where
  "emit e w = w\<lparr>trace := trace w @ [e]\<rparr>"

definition log_msg :: "logmsg \<Rightarrow> world \<Rightarrow> world" where
  "log_msg m w = w\<lparr>logs := logs w @ [m]\<rparr>"

definition pop_fault :: "world \<Rightarrow> bool \<times> world" where
  "pop_fault w = (case faults w of [] \<Rightarrow> (False, w) | b # bs \<Rightarrow> (b, w\<lparr>faults := bs\<rparr>))"

subsection \<open>The calls into \<^verbatim>\<open>os\<close>, \<^verbatim>\<open>shutil\<close>, \<^verbatim>\<open>time\<close> and Pillow\<close>

definition os_path_exists :: "path \<Rightarrow> world \<Rightarrow> bool" where
  "os_path_exists p w = (files w p \<noteq> None)"

definition os_access_W_OK :: "path \<Rightarrow> world \<Rightarrow> bool" where
  "os_access_W_OK p w = (case files w p of None \<Rightarrow> False | Some f \<Rightarrow> writable f)"

definition os_chmod :: "path \<Rightarrow> world \<Rightarrow> unit option \<times> world" where
  "os_chmod p w =
     (case pop_fault w of (flt, w1) \<Rightarrow>
        (case files w1 p of
           None \<Rightarrow> (None, emit (EvChmod p False) w1)
         | Some f \<Rightarrow>
             if flt then (None, emit (EvChmod p False) w1)
             else (Some (), emit (EvChmod p True)
                     (w1\<lparr>files := (files w1)(p \<mapsto> f\<lparr>writable := True\<rparr>)\<rparr>))))"

definition os_path_getsize :: "path \<Rightarrow> world \<Rightarrow> nat option \<times> world" where
  "os_path_getsize p w =
     (case pop_fault w of (flt, w1) \<Rightarrow>
        (case files w1 p of
           None \<Rightarrow> (None, emit (EvGetSize p None) w1)
         | Some f \<Rightarrow>
             if flt then (None, emit (EvGetSize p None) w1)
             else (Some (length (content f)), emit (EvGetSize p (Some (length (content f)))) w1)))"

definition os_remove :: "path \<Rightarrow> world \<Rightarrow> unit option \<times> world" where
  "os_remove p w =
     (case pop_fault w of (flt, w1) \<Rightarrow>
        if flt \<or> files w1 p = None then (None, emit (EvRemove p False) w1)
        else (Some (), emit (EvRemove p True) (w1\<lparr>files := (files w1)(p := None)\<rparr>)))"

definition os_replace :: "path \<Rightarrow> path \<Rightarrow> world \<Rightarrow> unit option \<times> world" where
  "os_replace src dst w =
     (case pop_fault w of (flt, w1) \<Rightarrow>
        if flt \<or> files w1 src = None then (None, emit (EvReplace src dst False) w1)
        else (Some (), emit (EvReplace src dst True)
                (w1\<lparr>files := (files w1)(src := None, dst := files w1 src)\<rparr>)))"

definition shutil_copy2 :: "path \<Rightarrow> path \<Rightarrow> world \<Rightarrow> unit option \<times> world" where
  "shutil_copy2 src dst w =
     (case pop_fault w of (flt, w1) \<Rightarrow>
        if flt \<or> files w1 src = None then (None, emit (EvCopy src dst False) w1)
        else (Some (), emit (EvCopy src dst True)
                (w1\<lparr>files := (files w1)(dst := files w1 src)\<rparr>)))"

definition time_sleep :: "nat \<Rightarrow> world \<Rightarrow> world" where
  "time_sleep ms w = emit (EvSleep ms) w"

text \<open>\<^verbatim>\<open>Image.open(f); img.load()\<close> on the bytes of the file at the path.\<close>

definition image_open :: "codec \<Rightarrow> path \<Rightarrow> world \<Rightarrow> (image \<times> string) option \<times> world" where
  "image_open cd p w =
     (case pop_fault w of (flt, w1) \<Rightarrow>
        (case files w1 p of
           None \<Rightarrow> (None, emit (EvOpen p False) w1)
         | Some f \<Rightarrow>
             if flt then (None, emit (EvOpen p False) w1)
             else (case decode cd (content f) of
                     None \<Rightarrow> (None, emit (EvOpen p False) w1)
                   | Some r \<Rightarrow> (Some r, emit (EvOpen p True) w1))))"

text \<open>\<^verbatim>\<open>img.save(path, quality=q, optimize=True, format='JPEG')\<close>. Pillow opens the
  target for writing, which empties a file that is there, and then runs the encoder. So
  a save can raise at two places: before the target is open, and the file system is as
  it was; or in the encoder, and a file that was there is left empty while a file the
  call created is removed again. An existing file keeps its permission bits.\<close>

definition image_save :: "codec \<Rightarrow> image \<Rightarrow> path \<Rightarrow> int \<Rightarrow> world \<Rightarrow> unit option \<times> world" where
  "image_save cd img p q w =
     (case pop_fault w of (flt, w1) \<Rightarrow>
        if flt then (None, emit (EvSave p q False) w1)
        else
          (case pop_fault w1 of (flt2, w2) \<Rightarrow>
             if flt2 then
               (None, emit (EvSave p q False)
                  (w2\<lparr>files := (files w2)(p := map_option (\<lambda>f. f\<lparr>content := []\<rparr>) (files w2 p))\<rparr>))
             else (Some (), emit (EvSave p q True)
                     (w2\<lparr>files := (files w2)(p \<mapsto>
                        \<lparr>content = encode cd img q,
                         writable = (case files w2 p of None \<Rightarrow> True | Some f \<Rightarrow> writable f)\<rparr>)\<rparr>))))"

text \<open>\<^verbatim>\<open>img.resize((nw, nh), Image.Resampling.LANCZOS)\<close>: Pillow refuses an empty target
  size; the result has the requested size.\<close>

definition image_resize :: "codec \<Rightarrow> image \<Rightarrow> nat \<Rightarrow> nat \<Rightarrow> world \<Rightarrow> image option \<times> world" where
  "image_resize cd img nw nh w =
     (case pop_fault w of (flt, w1) \<Rightarrow>
        if flt \<or> nw = 0 \<or> nh = 0 then (None, emit (EvResize nw nh False) w1)
        else (Some (img\<lparr>width := nw, height := nh, pixels := resample cd img nw nh\<rparr>),
              emit (EvResize nw nh True) w1))"

section \<open>\<open>_binary_compress\<close>\<close>

text \<open>Lines 89 to 94: one encode at quality \<open>q\<close> and the size measured, infinite when
  the save or the measurement raises.\<close>

definition encode_attempt :: "codec \<Rightarrow> image \<Rightarrow> path \<Rightarrow> int \<Rightarrow> world \<Rightarrow> kb \<times> world" where
  "encode_attempt cd img tmp_path q w =
     (case image_save cd img tmp_path q w of
        (None, w1) \<Rightarrow> (PosInf, log_msg (LogEncodeFailed q) w1)
      | (Some _, w1) \<Rightarrow>
          (case os_path_getsize tmp_path w1 of
             (None, w2) \<Rightarrow> (PosInf, log_msg (LogEncodeFailed q) w2)
           | (Some n, w2) \<Rightarrow> (KB (of_nat n / 1024), w2)))"

text \<open>The \<^verbatim>\<open>while low <= high\<close> loop of lines 87 to 102, returning the loop variables.\<close>

function bs_loop ::
  "config \<Rightarrow> codec \<Rightarrow> image \<Rightarrow> path \<Rightarrow> kb \<Rightarrow> int \<Rightarrow> int \<Rightarrow> int \<Rightarrow> kb \<Rightarrow> world
     \<Rightarrow> (int \<times> int \<times> int \<times> kb) \<times> world" where
  "bs_loop cfg cd img tmp_path ceiling_kb low high best_q found_size w =
     (if low \<le> high then
        (let mid = (low + high) div 2 in
         case encode_attempt cd img tmp_path mid w of (sz, w1) \<Rightarrow>
           (let found_size' = (if kb_less sz found_size \<and> kb_less sz ceiling_kb then sz else found_size);
                best_q' = (if kb_less sz found_size \<and> kb_less sz ceiling_kb then mid else best_q)
            in if kb_less (KB (of_int (target_size_kb cfg))) sz
               then bs_loop cfg cd img tmp_path ceiling_kb low (mid - 1) best_q' found_size' w1
               else bs_loop cfg cd img tmp_path ceiling_kb (mid + 1) high best_q' found_size' w1))
      else ((low, high, best_q, found_size), w))"
  by pat_completeness auto
termination
  by (relation "measure (\<lambda>(cfg, cd, img, tmp_path, ceiling_kb, low, high, best_q, found_size, w).
                  nat (high + 1 - low))") auto

declare bs_loop.simps [simp del]

text \<open>Lines 105 to 111: the final encode at \<^verbatim>\<open>max(self.MIN_Q, high)\<close>. The tolerance
  test \<^verbatim>\<open>final_s <= self.target_size_kb * 1.05\<close> is taken over the rationals.\<close>

definition final_encode ::
  "config \<Rightarrow> codec \<Rightarrow> image \<Rightarrow> path \<Rightarrow> int \<Rightarrow> world \<Rightarrow> (kb \<times> bool) \<times> world" where
  "final_encode cfg cd img tmp_path high w =
     (case image_save cd img tmp_path (max MIN_Q high) w of
        (None, w1) \<Rightarrow> ((PosInf, False), log_msg LogFinalEncodeFailed w1)
      | (Some _, w1) \<Rightarrow>
          (case os_path_getsize tmp_path w1 of
             (None, w2) \<Rightarrow> ((PosInf, False), log_msg LogFinalEncodeFailed w2)
           | (Some n, w2) \<Rightarrow>
               (let final_s = of_nat n / 1024
                in ((KB final_s, final_s \<le> of_int (target_size_kb cfg) * (105 / 100)), w2))))"

definition binary_compress ::
  "config \<Rightarrow> codec \<Rightarrow> image \<Rightarrow> path \<Rightarrow> kb \<Rightarrow> world \<Rightarrow> (kb \<times> bool) \<times> world" where
  "binary_compress cfg cd img tmp_path ceiling_kb w =
     (case bs_loop cfg cd img tmp_path ceiling_kb MIN_Q 95 95 PosInf w of
        ((low, high, best_q, found_size), w1) \<Rightarrow> final_encode cfg cd img tmp_path high w1)"

section \<open>The helpers \<open>_clear_readonly\<close>, \<open>_safe_replace\<close> and \<open>_convert_to_rgb\<close>\<close>

definition clear_readonly :: "path \<Rightarrow> world \<Rightarrow> bool \<times> world" where
  "clear_readonly p w =
     (if os_path_exists p w \<and> \<not> os_access_W_OK p w then
        (case os_chmod p w of
           (None, w1) \<Rightarrow> (False, log_msg LogChmodFailed w1)
         | (Some _, w1) \<Rightarrow> (True, w1))
      else (True, w))"

text \<open>\<^verbatim>\<open>for attempt in range(5)\<close>: the list argument holds the attempts still to run.\<close>

fun safe_replace_attempts :: "nat list \<Rightarrow> path \<Rightarrow> path \<Rightarrow> world \<Rightarrow> bool \<times> world" where
  "safe_replace_attempts [] src dst w = (False, w)"
| "safe_replace_attempts (attempt # rest) src dst w =
     (case (if os_path_exists dst w then os_remove dst w else (Some (), w)) of
        (None, w1) \<Rightarrow>
          safe_replace_attempts rest src dst
            (if attempt < 4 then time_sleep 200 w1 else log_msg LogReplaceFailed w1)
      | (Some _, w1) \<Rightarrow>
          (case os_replace src dst w1 of
             (Some _, w2) \<Rightarrow> (True, w2)
           | (None, w2) \<Rightarrow>
               safe_replace_attempts rest src dst
                 (if attempt < 4 then time_sleep 200 w2 else log_msg LogReplaceFailed w2)))"

definition safe_replace :: "path \<Rightarrow> path \<Rightarrow> world \<Rightarrow> bool \<times> world" where
  "safe_replace src dst w = safe_replace_attempts [0, 1, 2, 3, 4] src dst w"

text \<open>The branches of \<open>_convert_to_rgb\<close> in the order of the source. The result of every
  branch but the last is an RGB image of the same size.\<close>

definition rgb_pixels :: "codec \<Rightarrow> image \<Rightarrow> nat" where
  "rgb_pixels cd img =
     (if mode img = ModeRGBA then composite cd img
      else if mode img = ModeLA then composite cd img
      else if mode img = ModeP then
        (if transparency img then composite cd img else convert cd img)
      else if mode img \<in> {ModeL, Mode1, ModePA} then convert cd img
      else if mode img \<noteq> ModeRGB then convert cd img
      else pixels img)"

definition convert_to_rgb :: "codec \<Rightarrow> image \<Rightarrow> world \<Rightarrow> image option \<times> world" where
  "convert_to_rgb cd img w =
     (if mode img = ModeRGB then (Some img, w)
      else
        (case pop_fault w of (flt, w1) \<Rightarrow>
           if \<not> flt then
             (Some (img\<lparr>mode := ModeRGB, pixels := rgb_pixels cd img\<rparr>), emit (EvConvert True) w1)
           else
             (case pop_fault (log_msg LogConvertFailed (emit (EvConvert False) w1)) of
                (flt2, w2) \<Rightarrow>
                  if flt2 then (None, emit (EvConvert False) w2)
                  else (Some (img\<lparr>mode := ModeRGB, pixels := convert cd img\<rparr>),
                        emit (EvConvert True) w2))))"

section \<open>\<open>process_single_image\<close>\<close>

subsection \<open>Paths\<close>

text \<open>\<^verbatim>\<open>path.lower().endswith(('.jpg', '.jpeg'))\<close>, with \<^verbatim>\<open>lower\<close> on the ASCII letters.\<close>

definition lower_char :: "char \<Rightarrow> char" where
  "lower_char c =
     (case map_of (zip ''ABCDEFGHIJKLMNOPQRSTUVWXYZ'' ''abcdefghijklmnopqrstuvwxyz'') c of
        None \<Rightarrow> c
      | Some d \<Rightarrow> d)"

definition str_lower :: "string \<Rightarrow> string" where
  "str_lower s = map lower_char s"

definition endswith :: "string \<Rightarrow> string \<Rightarrow> bool" where
  "endswith s suf = (length suf \<le> length s \<and> drop (length s - length suf) s = suf)"

definition is_jpg_path :: "path \<Rightarrow> bool" where
  "is_jpg_path p = (endswith (str_lower p) ''.jpg'' \<or> endswith (str_lower p) ''.jpeg'')"

text \<open>\<^verbatim>\<open>os.path.splitext(path)[0]\<close> with the separator \<^verbatim>\<open>/\<close>: the extension starts at the
  last dot of the last component, unless only dots come before it there.\<close>

definition splitext_root :: "path \<Rightarrow> path" where
  "splitext_root p =
     (let base = rev (takeWhile (\<lambda>c. c \<noteq> CHR ''/'') (rev p));
          dir = take (length p - length base) p
      in if CHR ''.'' \<notin> set base then p
         else
           (let stem = rev (tl (dropWhile (\<lambda>c. c \<noteq> CHR ''.'') (rev base)))
            in if \<forall>c \<in> set stem. c = CHR ''.'' then p else dir @ stem))"

definition out_path_of :: "path \<Rightarrow> path" where
  "out_path_of p = splitext_root p @ ''.jpg''"

definition tmp_file_of :: "path \<Rightarrow> path" where
  "tmp_file_of p = p @ ''.tmp''"

subsection \<open>The float arithmetic of step 5\<close>

text \<open>\<^verbatim>\<open>ratio = self.max_dimension / max(w, h)\<close> and \<^verbatim>\<open>int(w * ratio)\<close> are computed in
  binary64 floats: the quotient of two integers is rounded to the nearest float, so is
  the product, and \<^verbatim>\<open>int\<close> cuts the fraction off. A float that is not negative is a
  pair \<open>(m, e)\<close> that stands for \<open>m * 2 ^ e\<close>; \<open>round_ratio a b\<close> is the float nearest to
  \<open>a / b\<close>, with 53 significant bits and ties to the even significand. The limits of
  the exponent are left out: the dimensions of an image stay far inside them.\<close>

fun bit_length :: "nat \<Rightarrow> nat" where
  "bit_length n = (if n = 0 then 0 else Suc (bit_length (n div 2)))"

declare bit_length.simps [simp del]

definition shift_left :: "nat \<Rightarrow> int \<Rightarrow> nat" where
  "shift_left n k = n * 2 ^ nat k"

definition round_ratio :: "nat \<Rightarrow> nat \<Rightarrow> nat \<times> int" where
  "round_ratio a b =
     (if a = 0 then (0, 0)
      else
        (let k = int (bit_length a) - int (bit_length b);
             e = (if shift_left b k \<le> shift_left a (- k) then k - 52 else k - 53);
             num = shift_left a (- e);
             den = shift_left b e;
             q = num div den;
             r = num mod den
         in (if 2 * r < den \<or> (2 * r = den \<and> even q) then q else q + 1, e)))"

definition float_of_nat :: "nat \<Rightarrow> nat \<times> int" where
  "float_of_nat n = round_ratio n 1"

definition float_mul :: "nat \<times> int \<Rightarrow> nat \<times> int \<Rightarrow> nat \<times> int" where
  "float_mul x y =
     round_ratio (shift_left (fst x * fst y) (snd x + snd y)) (shift_left 1 (- (snd x + snd y)))"

definition float_trunc :: "nat \<times> int \<Rightarrow> nat" where
  "float_trunc x = shift_left (fst x) (snd x) div shift_left 1 (- snd x)"

subsection \<open>The steps\<close>

text \<open>How a block of the \<^verbatim>\<open>try\<close> body ends: with \<^verbatim>\<open>return\<close>, with an exception that the
  outer \<^verbatim>\<open>except Exception\<close> catches, or by falling through with a value.\<close>

datatype 'a flow = Return | Raise | Continue 'a

text \<open>Steps 1 to 5 (lines 119 to 152): permission check, size on disk, decode, RGB
  conversion, long-edge limit. The result is \<^verbatim>\<open>(init_s, img, is_resized)\<close>.\<close>

definition steps_1_5 ::
  "config \<Rightarrow> codec \<Rightarrow> path \<Rightarrow> world \<Rightarrow> (rat \<times> image \<times> bool) flow \<times> world" where
  "steps_1_5 cfg cd p w =
     (case clear_readonly p w of
        (False, w1) \<Rightarrow> (Return, log_msg (LogPermissionError p) w1)
      | (True, w1) \<Rightarrow>
          (case os_path_getsize p w1 of
             (None, w2) \<Rightarrow> (Return, log_msg (LogUnreadable p) w2)
           | (Some n, w2) \<Rightarrow>
               (case image_open cd p w2 of
                  (None, w3) \<Rightarrow> (Return, log_msg (LogOpenFailed p) w3)
                | (Some (img0, original_format), w3) \<Rightarrow>
                    (case convert_to_rgb cd img0 w3 of
                       (None, w4) \<Rightarrow> (Raise, w4)
                     | (Some img, w4) \<Rightarrow>
                         (let init_s = of_nat n / 1024; wd = width img; h = height img in
                          if max_dimension cfg > 0 \<and> int (max wd h) > max_dimension cfg then
                            (let ratio = round_ratio (nat (max_dimension cfg)) (max wd h);
                                 new_w = float_trunc (float_mul (float_of_nat wd) ratio);
                                 new_h = float_trunc (float_mul (float_of_nat h) ratio)
                             in case image_resize cd img new_w new_h w4 of
                                  (None, w5) \<Rightarrow> (Raise, w5)
                                | (Some img', w5) \<Rightarrow>
                                    (Continue (init_s, img', True),
                                     log_msg (LogResized wd h new_w new_h) w5))
                          else (Continue (init_s, img, False), w4))))))"

text \<open>Step 7 (lines 161 to 165).\<close>

definition make_backup :: "config \<Rightarrow> path \<Rightarrow> world \<Rightarrow> world" where
  "make_backup cfg p w =
     (if backup cfg \<and> \<not> os_path_exists (p @ ''.bak'') w then
        (case shutil_copy2 p (p @ ''.bak'') w of
           (None, w1) \<Rightarrow> log_msg LogBackupFailed w1
         | (Some _, w1) \<Rightarrow> w1)
      else w)"

text \<open>Step 8 (lines 171 to 191), the adaptive loop. One pass through the loop body ends
  with \<^verbatim>\<open>break\<close>, with an exception out of \<^verbatim>\<open>resize\<close>, or with the next, smaller
  image; \<^verbatim>\<open>int(size * 0.9)\<close> is \<open>size * 9 div 10\<close>.\<close>

datatype 'a iteration = Break | Raised | Next 'a

definition adaptive_step ::
  "config \<Rightarrow> codec \<Rightarrow> path \<Rightarrow> kb \<Rightarrow> image \<Rightarrow> world \<Rightarrow> image iteration \<times> world" where
  "adaptive_step cfg cd tmp_file ceil curr_img w =
     (case binary_compress cfg cd curr_img tmp_file ceil w of
        ((fs, ok), w1) \<Rightarrow>
          if ok then (Break, w1)
          else if \<not> auto_resize cfg then (Break, w1)
          else
            (let nw = width curr_img * 9 div 10; nh = height curr_img * 9 div 10 in
             if nw < MIN_DIMENSION \<or> nh < MIN_DIMENSION
             then (Break, log_msg (LogMinDimension nw nh) w1)
             else
               (case image_resize cd curr_img nw nh w1 of
                  (None, w2) \<Rightarrow> (Raised, w2)
                | (Some img', w2) \<Rightarrow> (Next img', log_msg (LogShrink nw nh) w2))))"

text \<open>\<^verbatim>\<open>while attempt < self.MAX_ATTEMPTS\<close>: \<open>attempt\<close> is the number of passes made so far.
  The result is the current image when the loop ends, or \<open>None\<close> after an exception.\<close>

function adaptive_loop ::
  "config \<Rightarrow> codec \<Rightarrow> path \<Rightarrow> kb \<Rightarrow> image \<Rightarrow> nat \<Rightarrow> world \<Rightarrow> image option \<times> world" where
  "adaptive_loop cfg cd tmp_file ceil curr_img attempt w =
     (if attempt < MAX_ATTEMPTS then
        (case adaptive_step cfg cd tmp_file ceil curr_img w of
           (Break, w1) \<Rightarrow> (Some curr_img, w1)
         | (Raised, w1) \<Rightarrow> (None, w1)
         | (Next img', w1) \<Rightarrow> adaptive_loop cfg cd tmp_file ceil img' (attempt + 1) w1)
      else (Some curr_img, w))"
  by pat_completeness auto
termination
  by (relation "measure (\<lambda>(cfg, cd, tmp_file, ceil, curr_img, attempt, w). MAX_ATTEMPTS - attempt)")
     auto

declare adaptive_loop.simps [simp del]

text \<open>Step 11 (lines 204 to 214), \<^verbatim>\<open>for attempt in range(3)\<close>.\<close>

fun delete_original_attempts :: "nat list \<Rightarrow> path \<Rightarrow> world \<Rightarrow> world" where
  "delete_original_attempts [] p w = w"
| "delete_original_attempts (attempt # rest) p w =
     (if os_path_exists p w then
        (case os_remove p w of
           (Some _, w1) \<Rightarrow> log_msg (LogDeleted p) w1
         | (None, w1) \<Rightarrow>
             delete_original_attempts rest p
               (if attempt < 2 then time_sleep 100 w1 else log_msg LogDeleteFailed w1))
      else delete_original_attempts rest p w)"

text \<open>Steps 6 to 11 (lines 155 to 216) on the result of steps 1 to 5.\<close>

definition steps_6_11 ::
  "config \<Rightarrow> codec \<Rightarrow> path \<Rightarrow> rat \<times> image \<times> bool \<Rightarrow> world \<Rightarrow> unit flow \<times> world" where
  "steps_6_11 cfg cd p st w =
     (case st of (init_s, img, is_resized) \<Rightarrow>
        (let is_jpg = is_jpg_path p in
         if is_jpg \<and> \<not> is_resized \<and> init_s \<le> of_int (target_size_kb cfg)
         then (Return, log_msg (LogAlreadySatisfied p init_s) w)
         else
           (let w1 = make_backup cfg p w;
                ceil = (if is_resized \<or> \<not> is_jpg then PosInf else KB init_s)
            in case adaptive_loop cfg cd (tmp_file_of p) ceil img 0 w1 of
                 (None, w2) \<Rightarrow> (Raise, w2)
               | (Some curr_img, w2) \<Rightarrow>
                   (let out_path = out_path_of p in
                    case safe_replace (tmp_file_of p) out_path w2 of
                      (True, w3) \<Rightarrow>
                        (case os_path_getsize out_path w3 of
                           (None, w4) \<Rightarrow> (Raise, w4)
                         | (Some n, w4) \<Rightarrow>
                             (let w5 = log_msg (LogDone out_path (of_nat n / 1024)) w4 in
                              if p \<noteq> out_path
                              then (Return, delete_original_attempts [0, 1, 2] p w5)
                              else (Return, w5)))
                    | (False, w3) \<Rightarrow> (Return, log_msg (LogSaveFailed p) w3)))))"

text \<open>The \<^verbatim>\<open>finally\<close> block (lines 223 to 236): closing the image and collecting garbage
  change nothing in the world; the scratch file is removed, \<^verbatim>\<open>for attempt in range(3)\<close>.\<close>

fun cleanup_attempts :: "nat list \<Rightarrow> path \<Rightarrow> world \<Rightarrow> world" where
  "cleanup_attempts [] tmp_file w = w"
| "cleanup_attempts (attempt # rest) tmp_file w =
     (if os_path_exists tmp_file w then
        (case os_remove tmp_file w of
           (Some _, w1) \<Rightarrow> w1
         | (None, w1) \<Rightarrow> cleanup_attempts rest tmp_file (time_sleep 100 w1))
      else cleanup_attempts rest tmp_file w)"

text \<open>The \<^verbatim>\<open>try\<close> body, then the handler of the outer \<^verbatim>\<open>except Exception\<close>.\<close>

definition try_body :: "config \<Rightarrow> codec \<Rightarrow> path \<Rightarrow> world \<Rightarrow> unit flow \<times> world" where
  "try_body cfg cd p w =
     (case steps_1_5 cfg cd p w of
        (Return, w1) \<Rightarrow> (Return, w1)
      | (Raise, w1) \<Rightarrow> (Raise, w1)
      | (Continue st, w1) \<Rightarrow> steps_6_11 cfg cd p st w1)"

definition process_single_image :: "config \<Rightarrow> codec \<Rightarrow> path \<Rightarrow> world \<Rightarrow> world" where
  "process_single_image cfg cd p w =
     (case try_body cfg cd p w of
        (Raise, w1) \<Rightarrow> cleanup_attempts [0, 1, 2] (tmp_file_of p) (log_msg (LogException p) w1)
      | (_, w1) \<Rightarrow> cleanup_attempts [0, 1, 2] (tmp_file_of p) w1)"

section \<open>The counters of \<open>ImageCompressorUI\<close>\<close>

record counters =
  processed_count :: nat
  failed_count :: nat

text \<open>\<open>wrapper\<close> (lines 499 to 505). \<open>process_single_image\<close> catches every exception
  itself, so the \<^verbatim>\<open>except\<close> branch of \<open>wrapper\<close> is never taken.\<close>

definition wrapper :: "config \<Rightarrow> codec \<Rightarrow> path \<Rightarrow> counters \<times> world \<Rightarrow> counters \<times> world" where
  "wrapper cfg cd p s =
     (case s of (u, w) \<Rightarrow>
        (u\<lparr>processed_count := processed_count u + 1\<rparr>, process_single_image cfg cd p w))"

section \<open>Reading the trace\<close>

text \<open>The calls a run has added to the trace.\<close>

definition new_events :: "world \<Rightarrow> world \<Rightarrow> event list" where
  "new_events w w' = drop (length (trace w)) (trace w')"

text \<open>The sizes the encode attempts in a trace have measured, in order: a save that
  raised and a measurement that raised count as an infinite size, as in lines 92 to 94.\<close>

fun measured :: "event list \<Rightarrow> kb list" where
  "measured [] = []"
| "measured (EvSave p q ok # es) = (if ok then measured es else PosInf # measured es)"
| "measured (EvGetSize p r # es) =
     (case r of None \<Rightarrow> PosInf | Some n \<Rightarrow> KB (of_nat n / 1024)) # measured es"
| "measured (e # es) = measured es"

text \<open>The qualities of the \<^verbatim>\<open>img.save\<close> calls in a trace, in order.\<close>

fun saved_qualities :: "event list \<Rightarrow> int list" where
  "saved_qualities [] = []"
| "saved_qualities (EvSave p q ok # es) = q # saved_qualities es"
| "saved_qualities (e # es) = saved_qualities es"

text \<open>Whether a call changes the entry of a path in the file system, and whether it
  changes more than the permission bits there.\<close>

fun touches :: "path \<Rightarrow> event \<Rightarrow> bool" where
  "touches p (EvChmod q ok) = (ok \<and> q = p)"
| "touches p (EvSave q n ok) = (q = p)"
| "touches p (EvCopy s d ok) = (ok \<and> d = p)"
| "touches p (EvRemove q ok) = (ok \<and> q = p)"
| "touches p (EvReplace s d ok) = (ok \<and> (s = p \<or> d = p))"
| "touches p e = False"

fun overwrites :: "path \<Rightarrow> event \<Rightarrow> bool" where
  "overwrites p (EvChmod q ok) = False"
| "overwrites p e = touches p e"

text \<open>A run from \<open>w\<close> to \<open>w'\<close> that makes only calls in \<open>A\<close>: the trace grows by such
  calls, and a path that no call touches (overwrites) keeps its file (its bytes).\<close>

definition run :: "(event \<Rightarrow> bool) \<Rightarrow> world \<Rightarrow> world \<Rightarrow> bool" where
  "run A w w' =
     (\<exists>evs. trace w' = trace w @ evs \<and> (\<forall>e \<in> set evs. A e) \<and>
        (\<forall>p. (\<forall>e \<in> set evs. \<not> touches p e) \<longrightarrow> files w' p = files w p) \<and>
        (\<forall>p. (\<forall>e \<in> set evs. \<not> overwrites p e) \<longrightarrow>
               map_option content (files w' p) = map_option content (files w p)))"

text \<open>The calls of a trace that raised while removing or replacing a file, the lengths
  of its sleeps in milliseconds, and the target sizes of its resizes.\<close>

fun failed_calls :: "event list \<Rightarrow> nat" where
  "failed_calls [] = 0"
| "failed_calls (EvRemove p ok # es) = (if ok then failed_calls es else Suc (failed_calls es))"
| "failed_calls (EvReplace s d ok # es) = (if ok then failed_calls es else Suc (failed_calls es))"
| "failed_calls (e # es) = failed_calls es"

fun sleeps :: "event list \<Rightarrow> nat list" where
  "sleeps [] = []"
| "sleeps (EvSleep ms # es) = ms # sleeps es"
| "sleeps (e # es) = sleeps es"

fun resizes :: "event list \<Rightarrow> (nat \<times> nat) list" where
  "resizes [] = []"
| "resizes (EvResize nw nh ok # es) = (nw, nh) # resizes es"
| "resizes (e # es) = resizes es"

text \<open>One attempt of \<open>_safe_replace\<close> (lines 42 to 45) and its exception handler (lines 47
  to 50), as the proofs take them apart.\<close>

definition one_attempt :: "path \<Rightarrow> path \<Rightarrow> world \<Rightarrow> unit option \<times> world" where
  "one_attempt src dst w =
     (case (if os_path_exists dst w then os_remove dst w else (Some (), w)) of
        (None, w1) \<Rightarrow> (None, w1)
      | (Some _, w1) \<Rightarrow> os_replace src dst w1)"

definition after_failure :: "nat \<Rightarrow> world \<Rightarrow> world" where
  "after_failure attempt w = (if attempt < 4 then time_sleep 200 w else log_msg LogReplaceFailed w)"

text \<open>The calls that only the steps after the skip check make (backup, encoding,
  replacement, removal of anything but the scratch file \<open>tmp\<close>).\<close>

fun later_step_call :: "path \<Rightarrow> event \<Rightarrow> bool" where
  "later_step_call tmp (EvCopy s d ok) = True"
| "later_step_call tmp (EvSave q n ok) = True"
| "later_step_call tmp (EvReplace s d ok) = True"
| "later_step_call tmp (EvRemove q ok) = (q \<noteq> tmp)"
| "later_step_call tmp e = False"

text \<open>A call that leaves the path \<open>p\<close> alone: it neither removes nor writes \<open>p\<close>, whether
  it succeeds or raises.\<close>

fun quiet :: "path \<Rightarrow> event \<Rightarrow> bool" where
  "quiet p (EvRemove q ok) = (q \<noteq> p)"
| "quiet p (EvSave q n ok) = (q \<noteq> p)"
| "quiet p (EvCopy s d ok) = (d \<noteq> p)"
| "quiet p (EvReplace s d ok) = (s \<noteq> p \<and> d \<noteq> p)"
| "quiet p e = True"

text \<open>A trace in which no removal of \<open>p\<close> is attempted before \<open>src\<close> has been moved onto
  \<open>dst\<close> successfully.\<close>

fun deletes_guarded :: "path \<Rightarrow> path \<Rightarrow> path \<Rightarrow> event list \<Rightarrow> bool" where
  "deletes_guarded p src dst [] = True"
| "deletes_guarded p src dst (e # es) =
     (if e = EvReplace src dst True then True
      else e \<noteq> EvRemove p True \<and> e \<noteq> EvRemove p False \<and> deletes_guarded p src dst es)"

text \<open>A run of the job in two phases: calls that leave \<open>p\<close> alone, up to and including
  the successful replacement if there is one, and only then any other call.\<close>

definition phases :: "path \<Rightarrow> world \<Rightarrow> world \<Rightarrow> bool" where
  "phases p w w' =
     (run (quiet p) w w' \<or>
      (\<exists>wm. run (quiet p) w wm \<and>
         EvReplace (tmp_file_of p) (out_path_of p) True \<in> set (new_events w wm) \<and>
         run (\<lambda>e. True) wm w'))"

text \<open>The update of \<^verbatim>\<open>found_size, best_q\<close> in lines 96 and 97, on the pair
  \<^verbatim>\<open>(best_q, found_size)\<close> and on \<^verbatim>\<open>found_size\<close> alone.\<close>

definition track :: "kb \<Rightarrow> int \<Rightarrow> kb \<Rightarrow> int \<times> kb \<Rightarrow> int \<times> kb" where
  "track c mid sz s = (if kb_less sz (snd s) \<and> kb_less sz c then (mid, sz) else s)"

definition keep_best :: "kb \<Rightarrow> kb \<Rightarrow> kb \<Rightarrow> kb" where
  "keep_best c f s = (if kb_less s f \<and> kb_less s c then s else f)"

section \<open>Example inputs\<close>

text \<open>A codec whose JPEG output has 16 bytes per quality step, an RGB image, a target of
  1 KB, and a world with no files and no faults.\<close>

definition example_image :: image where
  "example_image = \<lparr>mode = ModeRGB, width = 100, height = 80, transparency = False, pixels = 0\<rparr>"

definition example_codec :: codec where
  "example_codec =
     \<lparr>decode = (\<lambda>b. Some (example_image, ''PNG'')),
      encode = (\<lambda>img q. replicate (nat q * 16) 0),
      composite = pixels, convert = pixels, resample = (\<lambda>img nw nh. pixels img)\<rparr>"

text \<open>A codec whose JPEG output has 1 KB per quality step: no quality meets a target of
  1 KB.\<close>

definition heavy_codec :: codec where
  "heavy_codec = example_codec\<lparr>encode := (\<lambda>img q. replicate (nat q * 1024) 0)\<rparr>"

definition example_config :: config where
  "example_config = \<lparr>target_size_kb = 1, backup = False, auto_resize = True, max_dimension = 0\<rparr>"

definition empty_world :: world where
  "empty_world = \<lparr>files = Map.empty, faults = [], trace = [], logs = []\<rparr>"

text \<open>A scratch file and a read-only destination, in a world where the next five calls
  raise.\<close>

definition locked_world :: world where
  "locked_world =
     \<lparr>files = Map.empty(''a.tmp'' \<mapsto> \<lparr>content = [2], writable = True\<rparr>,
                          ''a.jpg'' \<mapsto> \<lparr>content = [1], writable = False\<rparr>),
      faults = [True, True, True, True, True], trace = [], logs = []\<rparr>"

text \<open>Lines 486 and 487 of \<open>thread_pool_run\<close>: the final tally of successes and failures
  for \<open>n\<close> input paths.\<close>

definition final_counts :: "nat \<Rightarrow> counters \<Rightarrow> int \<times> int" where
  "final_counts n u = (int (processed_count u), int n - int (processed_count u))"

text \<open>A small file at a path with a JPEG extension (the example codec decodes it with
  the format name PNG); a read-only file beside a scratch file left behind, in a world
  where the next call raises; and a file too large for the target, with and without a
  JPEG extension.\<close>

definition jpg_world :: world where
  "jpg_world =
     \<lparr>files = Map.empty(''a.jpg'' \<mapsto> \<lparr>content = [1, 2, 3], writable = True\<rparr>),
      faults = [], trace = [], logs = []\<rparr>"

definition readonly_world :: world where
  "readonly_world =
     \<lparr>files = Map.empty(''a.png'' \<mapsto> \<lparr>content = [1, 2, 3], writable = False\<rparr>,
                          ''a.png.tmp'' \<mapsto> \<lparr>content = [9], writable = True\<rparr>),
      faults = [True], trace = [], logs = []\<rparr>"

definition large_world :: "path \<Rightarrow> bool list \<Rightarrow> world" where
  "large_world p fs =
     \<lparr>files = Map.empty(p \<mapsto> \<lparr>content = replicate 2000 0, writable = True\<rparr>),
      faults = fs, trace = [], logs = []\<rparr>"

text \<open>The example configuration with auto-resize switched off, and a tape on which the
  first two calls succeed and the next seven raise.\<close>

definition strict_config :: config where
  "strict_config = example_config\<lparr>auto_resize := False\<rparr>"

definition encoder_fails :: "bool list" where
  "encoder_fails = [False, False, True, True, True, True, True, True, True]"

section \<open>Frames of the calls\<close>

declare safe_replace_attempts.simps(2) [simp del]
declare delete_original_attempts.simps(2) [simp del]
declare cleanup_attempts.simps(2) [simp del]

lemmas attempts_simps = safe_replace_attempts.simps(2) delete_original_attempts.simps(2)
  cleanup_attempts.simps(2)

lemma run_refl: "run A w w"
  by (simp add: run_def)

lemma run_trans: "run A w w1 \<Longrightarrow> run A w1 w2 \<Longrightarrow> run A w w2"
  unfolding run_def
  apply (elim exE conjE)
  subgoal for evs evs'
    by (rule exI[of _ "evs @ evs'"]) auto
  done

lemma run_log: "run A w w' \<Longrightarrow> run A w (log_msg m w')"
  by (simp add: run_def log_msg_def)

lemma run_log0: "run A (log_msg m w) w' \<Longrightarrow> run A w w'"
  by (simp add: run_def log_msg_def)

lemma run_emit: "A e \<Longrightarrow> (\<And>p. \<not> touches p e) \<Longrightarrow> run A w (emit e w)"
  by (auto simp: run_def emit_def)

lemma time_sleep_run: "A (EvSleep ms) \<Longrightarrow> run A w (time_sleep ms w)"
  by (simp add: time_sleep_def run_emit)

lemma os_chmod_run:
  "os_chmod p w = (r, w') \<Longrightarrow> (\<And>ok. A (EvChmod p ok)) \<Longrightarrow> run A w w'"
  by (auto simp: os_chmod_def run_def emit_def pop_fault_def
           split: list.splits option.splits if_splits)

lemma os_path_getsize_run:
  "os_path_getsize p w = (r, w') \<Longrightarrow> (\<And>n. A (EvGetSize p n)) \<Longrightarrow> run A w w'"
  by (auto simp: os_path_getsize_def run_def emit_def pop_fault_def
           split: list.splits option.splits if_splits)

lemma os_remove_run:
  "os_remove p w = (r, w') \<Longrightarrow> (\<And>ok. A (EvRemove p ok)) \<Longrightarrow> run A w w'"
  by (auto simp: os_remove_def run_def emit_def pop_fault_def
           split: list.splits option.splits if_splits)

lemma os_replace_run:
  "os_replace s d w = (r, w') \<Longrightarrow> (\<And>ok. A (EvReplace s d ok)) \<Longrightarrow> run A w w'"
  by (auto simp: os_replace_def run_def emit_def pop_fault_def
           split: list.splits option.splits if_splits)

lemma shutil_copy2_run:
  "shutil_copy2 s d w = (r, w') \<Longrightarrow> (\<And>ok. A (EvCopy s d ok)) \<Longrightarrow> run A w w'"
  by (auto simp: shutil_copy2_def run_def emit_def pop_fault_def
           split: list.splits option.splits if_splits)

lemma image_open_run:
  "image_open cd p w = (r, w') \<Longrightarrow> (\<And>ok. A (EvOpen p ok)) \<Longrightarrow> run A w w'"
  by (auto simp: image_open_def run_def emit_def pop_fault_def
           split: list.splits option.splits if_splits)

lemma image_save_run:
  "image_save cd img p q w = (r, w') \<Longrightarrow> (\<And>ok. A (EvSave p q ok)) \<Longrightarrow> run A w w'"
  by (auto simp: image_save_def run_def emit_def pop_fault_def
           split: list.splits option.splits if_splits)

lemma image_resize_run:
  "image_resize cd img nw nh w = (r, w') \<Longrightarrow> (\<And>ok. A (EvResize nw nh ok)) \<Longrightarrow> run A w w'"
  by (auto simp: image_resize_def run_def emit_def pop_fault_def
           split: list.splits option.splits if_splits)

lemma convert_to_rgb_run:
  "convert_to_rgb cd img w = (r, w') \<Longrightarrow> (\<And>ok. A (EvConvert ok)) \<Longrightarrow> run A w w'"
  by (auto simp: convert_to_rgb_def run_def emit_def pop_fault_def log_msg_def
           split: list.splits option.splits if_splits)

lemma clear_readonly_run:
  "clear_readonly p w = (r, w') \<Longrightarrow> (\<And>ok. A (EvChmod p ok)) \<Longrightarrow> run A w w'"
  by (auto simp: clear_readonly_def run_refl split: if_splits prod.splits option.splits
           intro: run_log os_chmod_run)

lemma cleanup_attempts_run:
  "(\<And>ok. A (EvRemove t ok)) \<Longrightarrow> A (EvSleep 100) \<Longrightarrow> run A w (cleanup_attempts as t w)"
proof (induction as arbitrary: w)
  case Nil
  show ?case by (simp add: run_refl)
next
  case (Cons a as)
  note step = Cons.IH[OF Cons.prems]
  show ?case
    using Cons.prems
    by (auto simp: attempts_simps split: prod.splits option.splits
             intro: os_remove_run run_trans[OF os_remove_run run_trans[OF time_sleep_run step]] step)
qed

lemma delete_original_attempts_run:
  "(\<And>ok. A (EvRemove t ok)) \<Longrightarrow> A (EvSleep 100) \<Longrightarrow> run A w (delete_original_attempts as t w)"
proof (induction as arbitrary: w)
  case Nil
  show ?case by (simp add: run_refl)
next
  case (Cons a as)
  note step = Cons.IH[OF Cons.prems]
  show ?case
    using Cons.prems
    by (auto simp: attempts_simps split: prod.splits option.splits
             intro: run_log[OF os_remove_run] run_trans[OF os_remove_run run_trans[OF time_sleep_run step]]
                 run_trans[OF os_remove_run run_log0[OF step]] step)
qed

lemma safe_replace_attempts_run:
  "(\<And>ok. A (EvRemove d ok)) \<Longrightarrow> (\<And>ok. A (EvReplace s d ok)) \<Longrightarrow> A (EvSleep 200) \<Longrightarrow>
     run A w (snd (safe_replace_attempts as s d w))"
proof (induction as arbitrary: w)
  case Nil
  show ?case by (simp add: run_refl)
next
  case (Cons a as)
  note step = Cons.IH[OF Cons.prems]
  note retry = run_trans[OF time_sleep_run step] run_log0[OF step]
  show ?case
    using Cons.prems
    by (auto simp: attempts_simps split: prod.splits option.splits
             intro: os_replace_run retry run_trans[OF os_remove_run] run_trans[OF os_replace_run] 
                run_trans[OF os_remove_run os_replace_run]
                run_trans[OF os_remove_run run_trans[OF os_replace_run]])
qed


section \<open>The binary search\<close>

lemma measured_append: "measured (xs @ ys) = measured xs @ measured ys"
  by (induction xs rule: measured.induct) auto

lemma saved_qualities_append: "saved_qualities (xs @ ys) = saved_qualities xs @ saved_qualities ys"
  by (induction xs rule: saved_qualities.induct) auto

lemma run_new_events: "run A w w' \<Longrightarrow> trace w' = trace w @ new_events w w'"
  by (auto simp: run_def new_events_def)

lemma encode_attempt_run:
  assumes "encode_attempt cd img tmp q w = (sz, w')"
    and "\<And>ok. A (EvSave tmp q ok)" and "\<And>n. A (EvGetSize tmp n)"
  shows "run A w w'"
  using assms
  by (auto simp: encode_attempt_def split: prod.splits option.splits
      intro!: run_log intro: image_save_run run_trans[OF image_save_run os_path_getsize_run])

lemma encode_attempt_events:
  "encode_attempt cd img tmp q w = (sz, w') \<Longrightarrow>
     measured (new_events w w') = [sz] \<and> saved_qualities (new_events w w') = [q]"
  by (auto simp: encode_attempt_def image_save_def os_path_getsize_def emit_def log_msg_def
       pop_fault_def new_events_def split: prod.splits option.splits if_splits list.splits)

text \<open>The loop, one iteration at a time, and the induction rule that follows it.\<close>

lemma bs_loop_exit:
  "\<not> low \<le> high \<Longrightarrow>
     bs_loop cfg cd img tmp c low high bq fs w = ((low, high, bq, fs), w)"
  by (simp add: bs_loop.simps)

lemma bs_loop_shrink:
  assumes "low \<le> high" and "encode_attempt cd img tmp ((low + high) div 2) w = (sz, w1)"
    and "kb_less (KB (of_int (target_size_kb cfg))) sz"
  shows "bs_loop cfg cd img tmp c low high bq fs w =
      bs_loop cfg cd img tmp c low ((low + high) div 2 - 1)
             (fst (track c ((low + high) div 2) sz (bq, fs))) (snd (track c ((low + high) div 2) sz (bq, fs))) w1"
  using assms by (subst bs_loop.simps) (simp add: Let_def track_def)

lemma bs_loop_raise:
  assumes "low \<le> high" and "encode_attempt cd img tmp ((low + high) div 2) w = (sz, w1)"
    and "\<not> kb_less (KB (of_int (target_size_kb cfg))) sz"
  shows "bs_loop cfg cd img tmp c low high bq fs w =
      bs_loop cfg cd img tmp c ((low + high) div 2 + 1) high
             (fst (track c ((low + high) div 2) sz (bq, fs))) (snd (track c ((low + high) div 2) sz (bq, fs))) w1"
  using assms by (subst bs_loop.simps) (simp add: Let_def track_def)

lemma bs_loop_induct [consumes 0, case_names exit shrink_high raise_low]:
  fixes cfg :: config and cd :: codec and img :: image
  assumes exit: "\<And>low high bq fs w. \<not> low \<le> high \<Longrightarrow> Q low high bq fs w"
    and hi: "\<And>low high bq fs w sz w1. low \<le> high \<Longrightarrow>
        encode_attempt cd img tmp ((low + high) div 2) w = (sz, w1) \<Longrightarrow>
        kb_less (KB (of_int (target_size_kb cfg))) sz \<Longrightarrow>
        Q low ((low + high) div 2 - 1) (fst (track c ((low + high) div 2) sz (bq, fs)))
          (snd (track c ((low + high) div 2) sz (bq, fs))) w1 \<Longrightarrow>
        Q low high bq fs w"
    and lo: "\<And>low high bq fs w sz w1. low \<le> high \<Longrightarrow>
        encode_attempt cd img tmp ((low + high) div 2) w = (sz, w1) \<Longrightarrow>
        \<not> kb_less (KB (of_int (target_size_kb cfg))) sz \<Longrightarrow>
        Q ((low + high) div 2 + 1) high (fst (track c ((low + high) div 2) sz (bq, fs)))
          (snd (track c ((low + high) div 2) sz (bq, fs))) w1 \<Longrightarrow>
        Q low high bq fs w"
  shows "Q low high bq fs w"
proof -
  have "cfg' = cfg \<Longrightarrow> cd' = cd \<Longrightarrow> img' = img \<Longrightarrow> tmp' = tmp \<Longrightarrow> c' = c \<Longrightarrow> Q low high bq fs w"
    for cfg' cd' img' tmp' c'
  proof (induction cfg' cd' img' tmp' c' low high bq fs w rule: bs_loop.induct)
    case (1 cfg' cd' img' tmp' c' low high bq fs w)
    note eqs = "1.prems"
    show ?case
    proof (cases "low \<le> high")
      case False
      then show ?thesis by (rule exit)
    next
      case True
      obtain sz w1 where ea: "encode_attempt cd img tmp ((low + high) div 2) w = (sz, w1)"
        by (cases "encode_attempt cd img tmp ((low + high) div 2) w")
      have ea': "(sz, w1) = encode_attempt cd' img' tmp' ((low + high) div 2) w"
        using ea eqs by simp
      show ?thesis
      proof (cases "kb_less (KB (of_int (target_size_kb cfg))) sz")
        case big: True
        have big': "kb_less (KB (of_int (target_size_kb cfg'))) sz" using big eqs by simp
        show ?thesis
          using "1.IH"(1)[OF True refl ea' refl refl big' eqs] eqs
          by (intro hi[OF True ea big]) (auto simp: track_def split: if_splits)
      next
        case small: False
        have small': "\<not> kb_less (KB (of_int (target_size_kb cfg'))) sz" using small eqs by simp
        show ?thesis
          using "1.IH"(2)[OF True refl ea' refl refl small' eqs] eqs
          by (intro lo[OF True ea small]) (auto simp: track_def split: if_splits)
      qed
    qed
  qed
  then show ?thesis by simp
qed

lemma bs_loop_bounds:
  "low \<le> fst (fst (bs_loop cfg cd img tmp c low high bq fs w)) \<and>
   fst (snd (fst (bs_loop cfg cd img tmp c low high bq fs w))) \<le> high \<and>
   (low \<le> high + 1 \<longrightarrow> fst (fst (bs_loop cfg cd img tmp c low high bq fs w)) =
       fst (snd (fst (bs_loop cfg cd img tmp c low high bq fs w))) + 1)"
proof (induction low high bq fs w rule: bs_loop_induct[where cd=cd and img=img and tmp=tmp and cfg=cfg and c=c])
  case (exit low high bq fs w)
  then show ?case by (simp add: bs_loop_exit)
next
  case (shrink_high low high bq fs w sz w1)
  show ?case
    unfolding bs_loop_shrink[OF shrink_high(1,2,3)] using shrink_high(1,4) by linarith
next
  case (raise_low low high bq fs w sz w1)
  show ?case
    unfolding bs_loop_raise[OF raise_low(1,2,3)] using raise_low(1,4) by linarith
qed

lemma bs_loop_run:
  assumes "\<And>q ok. A (EvSave tmp q ok)" and "\<And>n. A (EvGetSize tmp n)"
  shows "run A w (snd (bs_loop cfg cd img tmp c low high bq fs w))"
proof (induction low high bq fs w rule: bs_loop_induct[where cd=cd and img=img and tmp=tmp and cfg=cfg and c=c])
  case (exit low high bq fs w)
  then show ?case by (simp add: run_refl bs_loop_exit)
next
  case (shrink_high low high bq fs w sz w1)
  show ?case
    unfolding bs_loop_shrink[OF shrink_high(1,2,3)]
    by (rule run_trans[OF encode_attempt_run[OF shrink_high(2)] shrink_high(4)]) (rule assms)+
next
  case (raise_low low high bq fs w sz w1)
  show ?case
    unfolding bs_loop_raise[OF raise_low(1,2,3)]
    by (rule run_trans[OF encode_attempt_run[OF raise_low(2)] raise_low(4)]) (rule assms)+
qed

text \<open>The ceiling only reaches \<open>best_q\<close> and \<open>found_size\<close>.\<close>

lemma bs_loop_ceiling:
  "fst (fst (bs_loop cfg cd img tmp c low high bq fs w)) =
     fst (fst (bs_loop cfg cd img tmp c' low high bq' fs' w)) \<and>
   fst (snd (fst (bs_loop cfg cd img tmp c low high bq fs w))) =
     fst (snd (fst (bs_loop cfg cd img tmp c' low high bq' fs' w))) \<and>
   snd (bs_loop cfg cd img tmp c low high bq fs w) =
     snd (bs_loop cfg cd img tmp c' low high bq' fs' w)"
proof (induction low high bq fs w arbitrary: bq' fs'
    rule: bs_loop_induct[where cd=cd and img=img and tmp=tmp and cfg=cfg and c=c])
  case (exit low high bq fs w)
  then show ?case by (simp add: bs_loop_exit)
next
  case (shrink_high low high bq fs w sz w1)
  show ?case
    unfolding bs_loop_shrink[OF shrink_high(1,2,3), where c=c]
      bs_loop_shrink[OF shrink_high(1,2,3), where c=c']
    by (rule shrink_high(4))
next
  case (raise_low low high bq fs w sz w1)
  show ?case
    unfolding bs_loop_raise[OF raise_low(1,2,3), where c=c]
      bs_loop_raise[OF raise_low(1,2,3), where c=c']
    by (rule raise_low(4))
qed

lemma run_any: "run A w w' \<Longrightarrow> run (\<lambda>e. True) w w'"
  by (auto simp: run_def)

lemma events_split:
  "run A w w1 \<Longrightarrow> run B w1 w2 \<Longrightarrow> new_events w w2 = new_events w w1 @ new_events w1 w2"
  by (auto simp: run_def new_events_def)

lemma new_events_self: "new_events w w = []"
  by (simp add: new_events_def)

lemma run_events: "run A w w' \<Longrightarrow> e \<in> set (new_events w w') \<Longrightarrow> A e"
  by (auto simp: run_def new_events_def)

lemma encode_attempt_any: "encode_attempt cd img tmp q w = (sz, w1) \<Longrightarrow> run (\<lambda>e. True) w w1"
  by (rule encode_attempt_run) simp_all

lemma bs_loop_any: "run (\<lambda>e. True) w (snd (bs_loop cfg cd img tmp c low high bq fs w))"
  by (rule bs_loop_run) simp_all

lemma bs_loop_qualities:
  "\<forall>q \<in> set (saved_qualities (new_events w (snd (bs_loop cfg cd img tmp c low high bq fs w)))).
      low \<le> q \<and> q \<le> high"
proof (induction low high bq fs w rule: bs_loop_induct[where cd=cd and img=img and tmp=tmp and cfg=cfg and c=c])
  case (exit low high bq fs w)
  then show ?case by (simp add: bs_loop_exit new_events_self)
next
  case (shrink_high low high bq fs w sz w1)
  show ?case
    unfolding bs_loop_shrink[OF shrink_high(1,2,3)]
      events_split[OF encode_attempt_any[OF shrink_high(2)] bs_loop_any]
    using shrink_high(1,4) encode_attempt_events[OF shrink_high(2)]
    by (auto simp: saved_qualities_append)
next
  case (raise_low low high bq fs w sz w1)
  show ?case
    unfolding bs_loop_raise[OF raise_low(1,2,3)]
      events_split[OF encode_attempt_any[OF raise_low(2)] bs_loop_any]
    using raise_low(1,4) encode_attempt_events[OF raise_low(2)]
    by (auto simp: saved_qualities_append)
qed

lemma nat_less_pow2: "nat x < 2 ^ k \<longleftrightarrow> x < 2 ^ k" for x :: int
proof (cases "0 \<le> x")
  case True
  then obtain n where "x = int n" using nonneg_int_cases by blast
  then show ?thesis by (simp add: of_nat_less_numeral_power_cancel_iff)
next
  case False
  have "(0::int) < 2 ^ k" by simp
  with False have "x < 2 ^ k" by linarith
  moreover from False have "nat x = 0" by simp
  ultimately show ?thesis by simp
qed

lemma halve_left: "low \<le> high \<Longrightarrow> nat (high + 1 - low) < 2 ^ Suc k \<Longrightarrow>
    nat ((low + high) div 2 - 1 + 1 - low) < 2 ^ k" for low high :: int
  unfolding nat_less_pow2 by simp

lemma halve_right: "low \<le> high \<Longrightarrow> nat (high + 1 - low) < 2 ^ Suc k \<Longrightarrow>
    nat (high + 1 - ((low + high) div 2 + 1)) < 2 ^ k" for low high :: int
  unfolding nat_less_pow2 by simp

lemma bs_loop_count:
  "nat (high + 1 - low) < 2 ^ k \<Longrightarrow>
     length (saved_qualities (new_events w (snd (bs_loop cfg cd img tmp c low high bq fs w)))) \<le> k"
proof (induction low high bq fs w arbitrary: k rule: bs_loop_induct[where cd=cd and img=img and tmp=tmp and cfg=cfg and c=c])
  case (exit low high bq fs w)
  then show ?case by (simp add: bs_loop_exit new_events_self)
next
  case (shrink_high low high bq fs w sz w1)
  from shrink_high(1,5) obtain k' where k: "k = Suc k'"
    by (cases k) auto
  have "length (saved_qualities (new_events w1 (snd (bs_loop cfg cd img tmp c low ((low + high) div 2 - 1)
          (fst (track c ((low + high) div 2) sz (bq, fs))) (snd (track c ((low + high) div 2) sz (bq, fs))) w1)))) \<le> k'"
    by (rule shrink_high(4)) (use halve_left[OF shrink_high(1)] shrink_high(5) k in blast)
  then show ?case
    unfolding bs_loop_shrink[OF shrink_high(1,2,3)]
      events_split[OF encode_attempt_any[OF shrink_high(2)] bs_loop_any]
    using encode_attempt_events[OF shrink_high(2)] k
    by (simp add: saved_qualities_append)
next
  case (raise_low low high bq fs w sz w1)
  from raise_low(1,5) obtain k' where k: "k = Suc k'"
    by (cases k) auto
  have "length (saved_qualities (new_events w1 (snd (bs_loop cfg cd img tmp c ((low + high) div 2 + 1) high
          (fst (track c ((low + high) div 2) sz (bq, fs))) (snd (track c ((low + high) div 2) sz (bq, fs))) w1)))) \<le> k'"
    by (rule raise_low(4)) (use halve_right[OF raise_low(1)] raise_low(5) k in blast)
  then show ?case
    unfolding bs_loop_raise[OF raise_low(1,2,3)]
      events_split[OF encode_attempt_any[OF raise_low(2)] bs_loop_any]
    using encode_attempt_events[OF raise_low(2)] k
    by (simp add: saved_qualities_append)
qed

lemma bs_loop_found:
  "snd (snd (snd (fst (bs_loop cfg cd img tmp c low high bq fs w)))) =
     foldl (keep_best c) fs (measured (new_events w (snd (bs_loop cfg cd img tmp c low high bq fs w))))"
proof (induction low high bq fs w rule: bs_loop_induct[where cd=cd and img=img and tmp=tmp and cfg=cfg and c=c])
  case (exit low high bq fs w)
  then show ?case by (simp add: bs_loop_exit new_events_self)
next
  case (shrink_high low high bq fs w sz w1)
  show ?case
    unfolding bs_loop_shrink[OF shrink_high(1,2,3)]
      events_split[OF encode_attempt_any[OF shrink_high(2)] bs_loop_any]
    using shrink_high(4) encode_attempt_events[OF shrink_high(2)]
    by (simp add: measured_append track_def keep_best_def)
next
  case (raise_low low high bq fs w sz w1)
  show ?case
    unfolding bs_loop_raise[OF raise_low(1,2,3)]
      events_split[OF encode_attempt_any[OF raise_low(2)] bs_loop_any]
    using raise_low(4) encode_attempt_events[OF raise_low(2)]
    by (simp add: measured_append track_def keep_best_def)
qed

lemma kb_le_refl: "kb_le a a"
  by (cases a) auto

lemma keep_best_fold:
  "foldl (keep_best c) f ms = f \<and> (\<forall>s \<in> set ms. kb_less s c \<longrightarrow> kb_le f s) \<or>
   foldl (keep_best c) f ms \<in> set ms \<and> kb_less (foldl (keep_best c) f ms) c \<and>
     kb_less (foldl (keep_best c) f ms) f \<and>
     (\<forall>s \<in> set ms. kb_less s c \<longrightarrow> kb_le (foldl (keep_best c) f ms) s)"
proof (induction ms arbitrary: f)
  case Nil
  show ?case by simp
next
  case (Cons m ms)
  show ?case
  proof (cases "kb_less m f \<and> kb_less m c")
    case True
    then have kb: "keep_best c f m = m" by (simp add: keep_best_def)
    from Cons[of m] True show ?thesis
      unfolding foldl_Cons kb
      by (cases f; cases m; cases "foldl (keep_best c) m ms") (auto intro: kb_le_refl)
  next
    case False
    then have kb: "keep_best c f m = f" by (auto simp add: keep_best_def)
    from Cons[of f] False show ?thesis
      unfolding foldl_Cons kb
      by (cases f; cases m; cases "foldl (keep_best c) f ms") (auto intro: kb_le_refl)
  qed
qed

lemmas prim_defs = encode_attempt_def image_save_def os_path_getsize_def pop_fault_def emit_def
  log_msg_def

lemma binary_compress_unfold:
  "binary_compress cfg cd img tmp c w =
     final_encode cfg cd img tmp (fst (snd (fst (bs_loop cfg cd img tmp c MIN_Q 95 95 PosInf w))))
       (snd (bs_loop cfg cd img tmp c MIN_Q 95 95 PosInf w))"
  by (simp add: binary_compress_def split: prod.splits)

lemma binary_compress_ceiling:
  "binary_compress cfg cd img tmp c w = binary_compress cfg cd img tmp c' w"
  unfolding binary_compress_unfold
  using bs_loop_ceiling[of cfg cd img tmp c MIN_Q 95 95 PosInf w c' 95 PosInf] by simp

lemma encode_attempt_ok:
  "faults w = [] \<Longrightarrow>
     encode_attempt cd img tmp q w =
       (KB (of_nat (length (encode cd img q)) / 1024),
        w\<lparr>files := (files w)(tmp \<mapsto> \<lparr>content = encode cd img q,
               writable = (case files w tmp of None \<Rightarrow> True | Some f \<Rightarrow> writable f)\<rparr>),
          trace := trace w @ [EvSave tmp q True, EvGetSize tmp (Some (length (encode cd img q)))]\<rparr>)"
  by (simp add: prim_defs)

lemma bs_loop_shrink_eval:
  "low \<le> high \<Longrightarrow>
   kb_less (KB (of_int (target_size_kb cfg))) (fst (encode_attempt cd img tmp ((low + high) div 2) w)) \<Longrightarrow>
   bs_loop cfg cd img tmp c low high bq fs w =
      bs_loop cfg cd img tmp c low ((low + high) div 2 - 1)
        (fst (track c ((low + high) div 2) (fst (encode_attempt cd img tmp ((low + high) div 2) w)) (bq, fs)))
        (snd (track c ((low + high) div 2) (fst (encode_attempt cd img tmp ((low + high) div 2) w)) (bq, fs)))
        (snd (encode_attempt cd img tmp ((low + high) div 2) w))"
  by (rule bs_loop_shrink) (simp_all)

lemma bs_loop_raise_eval:
  "low \<le> high \<Longrightarrow>
   \<not> kb_less (KB (of_int (target_size_kb cfg))) (fst (encode_attempt cd img tmp ((low + high) div 2) w)) \<Longrightarrow>
   bs_loop cfg cd img tmp c low high bq fs w =
      bs_loop cfg cd img tmp c ((low + high) div 2 + 1) high
        (fst (track c ((low + high) div 2) (fst (encode_attempt cd img tmp ((low + high) div 2) w)) (bq, fs)))
        (snd (track c ((low + high) div 2) (fst (encode_attempt cd img tmp ((low + high) div 2) w)) (bq, fs)))
        (snd (encode_attempt cd img tmp ((low + high) div 2) w))"
  by (rule bs_loop_raise) (simp_all)

lemma example_search:
  assumes "faults w = []"
  shows "fst (snd (fst (bs_loop example_config example_codec img tmp c MIN_Q 95 bq fs w))) = 64 \<and>
    snd (bs_loop example_config example_codec img tmp c MIN_Q 95 bq fs w) =
      w\<lparr>files := (files w)(tmp \<mapsto> \<lparr>content = replicate 1024 0,
             writable = (case files w tmp of None \<Rightarrow> True | Some f \<Rightarrow> writable f)\<rparr>),
        trace := trace w @ [EvSave tmp 52 True, EvGetSize tmp (Some 832), EvSave tmp 74 True,
          EvGetSize tmp (Some 1184), EvSave tmp 63 True, EvGetSize tmp (Some 1008),
          EvSave tmp 68 True, EvGetSize tmp (Some 1088), EvSave tmp 65 True,
          EvGetSize tmp (Some 1040), EvSave tmp 64 True, EvGetSize tmp (Some 1024)]\<rparr>"
  using assms
  by (simp add: bs_loop_shrink_eval bs_loop_raise_eval bs_loop_exit encode_attempt_ok MIN_Q_def
        example_codec_def example_config_def)

lemma heavy_search:
  assumes "faults w = []"
  shows "fst (snd (fst (bs_loop example_config heavy_codec img tmp c MIN_Q 95 bq fs w))) = 9 \<and>
    snd (bs_loop example_config heavy_codec img tmp c MIN_Q 95 bq fs w) =
      w\<lparr>files := (files w)(tmp \<mapsto> \<lparr>content = replicate 10240 0,
             writable = (case files w tmp of None \<Rightarrow> True | Some f \<Rightarrow> writable f)\<rparr>),
        trace := trace w @ [EvSave tmp 52 True, EvGetSize tmp (Some 53248), EvSave tmp 30 True,
          EvGetSize tmp (Some 30720), EvSave tmp 19 True, EvGetSize tmp (Some 19456),
          EvSave tmp 14 True, EvGetSize tmp (Some 14336), EvSave tmp 11 True,
          EvGetSize tmp (Some 11264), EvSave tmp 10 True, EvGetSize tmp (Some 10240)]\<rparr>"
  using assms
  by (simp add: bs_loop_shrink_eval bs_loop_raise_eval bs_loop_exit encode_attempt_ok MIN_Q_def
        heavy_codec_def example_config_def)

lemma final_encode_run:
  assumes "\<And>q ok. A (EvSave tmp q ok)" and "\<And>n. A (EvGetSize tmp n)"
  shows "run A w (snd (final_encode cfg cd img tmp hi w))"
  using assms
  by (auto simp: final_encode_def Let_def split: prod.splits option.splits
      intro!: run_log intro: image_save_run run_trans[OF image_save_run os_path_getsize_run])

lemma final_encode_events:
  "saved_qualities (new_events w (snd (final_encode cfg cd img tmp hi w))) = [max MIN_Q hi] \<and>
   measured (new_events w (snd (final_encode cfg cd img tmp hi w))) =
     [fst (fst (final_encode cfg cd img tmp hi w))]"
  by (auto simp: final_encode_def image_save_def os_path_getsize_def emit_def log_msg_def
       pop_fault_def new_events_def Let_def split: prod.splits option.splits if_splits list.splits)

lemma final_encode_size:
  "fst (fst (final_encode cfg cd img tmp hi w)) = fst (encode_attempt cd img tmp (max MIN_Q hi) w)"
  by (auto simp: final_encode_def encode_attempt_def Let_def split: prod.splits option.splits)

lemma binary_compress_run:
  assumes "\<And>q ok. A (EvSave tmp q ok)" and "\<And>n. A (EvGetSize tmp n)"
  shows "run A w (snd (binary_compress cfg cd img tmp c w))"
  unfolding binary_compress_unfold
  by (rule run_trans[OF bs_loop_run final_encode_run]) (rule assms)+

lemma binary_compress_events:
  "new_events w (snd (binary_compress cfg cd img tmp c w)) =
     new_events w (snd (bs_loop cfg cd img tmp c MIN_Q 95 95 PosInf w)) @
     new_events (snd (bs_loop cfg cd img tmp c MIN_Q 95 95 PosInf w))
       (snd (binary_compress cfg cd img tmp c w))"
  unfolding binary_compress_unfold
  by (rule events_split[OF bs_loop_any final_encode_run]) simp_all

lemma example_binary_compress:
  assumes "faults w = []"
  shows "binary_compress example_config example_codec img tmp c w =
     ((KB 1, True),
      w\<lparr>files := (files w)(tmp \<mapsto> \<lparr>content = replicate 1024 0,
             writable = (case files w tmp of None \<Rightarrow> True | Some f \<Rightarrow> writable f)\<rparr>),
        trace := trace w @ [EvSave tmp 52 True, EvGetSize tmp (Some 832), EvSave tmp 74 True,
          EvGetSize tmp (Some 1184), EvSave tmp 63 True, EvGetSize tmp (Some 1008),
          EvSave tmp 68 True, EvGetSize tmp (Some 1088), EvSave tmp 65 True,
          EvGetSize tmp (Some 1040), EvSave tmp 64 True, EvGetSize tmp (Some 1024),
          EvSave tmp 64 True, EvGetSize tmp (Some 1024)]\<rparr>)"
  unfolding binary_compress_unfold
  using assms
  by (simp add: example_search[OF assms])
     (simp add: final_encode_def prim_defs MIN_Q_def example_codec_def example_config_def)

lemma heavy_binary_compress:
  assumes "faults w = []"
  shows "binary_compress example_config heavy_codec img tmp c w =
     ((KB 10, False),
      w\<lparr>files := (files w)(tmp \<mapsto> \<lparr>content = replicate 10240 0,
             writable = (case files w tmp of None \<Rightarrow> True | Some f \<Rightarrow> writable f)\<rparr>),
        trace := trace w @ [EvSave tmp 52 True, EvGetSize tmp (Some 53248), EvSave tmp 30 True,
          EvGetSize tmp (Some 30720), EvSave tmp 19 True, EvGetSize tmp (Some 19456),
          EvSave tmp 14 True, EvGetSize tmp (Some 14336), EvSave tmp 11 True,
          EvGetSize tmp (Some 11264), EvSave tmp 10 True, EvGetSize tmp (Some 10240),
          EvSave tmp 10 True, EvGetSize tmp (Some 10240)]\<rparr>)"
  unfolding binary_compress_unfold
  using assms
  by (simp add: heavy_search[OF assms])
     (simp add: final_encode_def prim_defs MIN_Q_def heavy_codec_def example_config_def)

lemma empty_world_simps:
  "files empty_world p = None" "faults empty_world = []" "trace empty_world = []"
  "logs empty_world = []"
  by (simp_all add: empty_world_def)

section \<open>The retries of \<open>_safe_replace\<close>\<close>

lemmas os_defs = os_path_exists_def os_access_W_OK_def os_chmod_def os_remove_def os_replace_def
  shutil_copy2_def time_sleep_def os_path_getsize_def pop_fault_def emit_def log_msg_def

lemma failed_calls_append: "failed_calls (xs @ ys) = failed_calls xs + failed_calls ys"
  by (induction xs rule: failed_calls.induct) auto

lemma sleeps_append: "sleeps (xs @ ys) = sleeps xs @ sleeps ys"
  by (induction xs rule: sleeps.induct) auto

lemma os_remove_events:
  "os_remove p w = (r, w1) \<Longrightarrow>
     new_events w w1 = [EvRemove p (r \<noteq> None)] \<and> logs w1 = logs w"
  by (auto simp: os_remove_def new_events_def emit_def pop_fault_def split: list.splits if_splits)

lemma os_replace_events:
  "os_replace s d w = (r, w1) \<Longrightarrow>
     new_events w w1 = [EvReplace s d (r \<noteq> None)] \<and> logs w1 = logs w"
  by (auto simp: os_replace_def new_events_def emit_def pop_fault_def split: list.splits if_splits)

lemma safe_replace_attempts_Cons:
  "safe_replace_attempts (a # as) src dst w =
     (case one_attempt src dst w of
        (Some _, w1) \<Rightarrow> (True, w1)
      | (None, w1) \<Rightarrow> safe_replace_attempts as src dst (after_failure a w1))"
  by (simp add: attempts_simps one_attempt_def after_failure_def split: prod.splits option.splits)

lemma one_attempt_run:
  assumes "one_attempt src dst w = (r, w1)"
    and "\<And>ok. A (EvRemove dst ok)" and "\<And>ok. A (EvReplace src dst ok)"
  shows "run A w w1"
  using assms
  by (auto simp: one_attempt_def run_refl split: if_splits prod.splits option.splits
      intro: os_remove_run os_replace_run run_trans[OF os_remove_run os_replace_run])

lemma one_attempt_events:
  assumes "one_attempt src dst w = (r, w1)"
  shows "logs w1 = logs w \<and> sleeps (new_events w w1) = [] \<and>
     (case r of
        None \<Rightarrow> failed_calls (new_events w w1) = 1
      | Some _ \<Rightarrow> failed_calls (new_events w w1) = 0 \<and> new_events w w1 \<noteq> [] \<and>
                 last (new_events w w1) = EvReplace src dst True)"
proof (cases "os_path_exists dst w")
  case False
  with assms have "os_replace src dst w = (r, w1)"
    by (simp add: one_attempt_def)
  from os_replace_events[OF this] show ?thesis
    by (cases r) auto
next
  case True
  obtain r0 w0 where rm: "os_remove dst w = (r0, w0)"
    by (cases "os_remove dst w")
  note e0 = os_remove_events[OF rm]
  have run0: "run (\<lambda>e. True) w w0" by (rule os_remove_run[OF rm]) simp
  show ?thesis
  proof (cases r0)
    case None
    with assms True rm have "r = None" "w1 = w0" by (simp_all add: one_attempt_def)
    with e0 None show ?thesis by simp
  next
    case (Some u)
    with assms True rm have rp: "os_replace src dst w0 = (r, w1)"
      by (simp add: one_attempt_def)
    have run1: "run (\<lambda>e. True) w0 w1" by (rule os_replace_run[OF rp]) simp
    from os_replace_events[OF rp] e0 Some show ?thesis
      unfolding events_split[OF run0 run1]
      by (cases r) (auto simp: failed_calls_append sleeps_append)
  qed
qed

lemma after_failure_run: "A (EvSleep 200) \<Longrightarrow> run A w (after_failure a w)"
  by (simp add: after_failure_def time_sleep_run run_log run_refl)

lemma after_failure_events:
  "new_events w (after_failure a w) = (if a < 4 then [EvSleep 200] else []) \<and>
   logs (after_failure a w) = logs w @ (if a < 4 then [] else [LogReplaceFailed])"
  by (simp add: after_failure_def time_sleep_def emit_def log_msg_def new_events_def)

lemma safe_replace_attempts_any:
  "run (\<lambda>e. True) w (snd (safe_replace_attempts as src dst w))"
  by (rule safe_replace_attempts_run) simp_all

lemma safe_replace_attempts_events:
  "(let r = safe_replace_attempts as src dst w;
        evs = new_events w (snd r);
        n = failed_calls evs
    in (if fst r
        then n < length as \<and> evs \<noteq> [] \<and> last evs = EvReplace src dst True
        else n = length as) \<and>
       sleeps evs = map (\<lambda>a. 200) (filter (\<lambda>a. a < 4) (take n as)) \<and>
       logs (snd r) = logs w @ map (\<lambda>a. LogReplaceFailed) (filter (\<lambda>a. \<not> a < 4) (take n as)))"
proof (induction as arbitrary: w)
  case Nil
  show ?case by (simp add: new_events_self)
next
  case (Cons a as)
  obtain r1 w1 where at: "one_attempt src dst w = (r1, w1)"
    by (cases "one_attempt src dst w")
  note ev1 = one_attempt_events[OF at]
  have run1: "run (\<lambda>e. True) w w1" by (rule one_attempt_run[OF at]) simp_all
  show ?case
  proof (cases r1)
    case (Some u)
    with at have "safe_replace_attempts (a # as) src dst w = (True, w1)"
      by (simp add: safe_replace_attempts_Cons)
    with ev1 Some show ?thesis by (simp add: Let_def)
  next
    case None
    define w2 where "w2 = after_failure a w1"
    define r where "r = safe_replace_attempts as src dst w2"
    have eq: "safe_replace_attempts (a # as) src dst w = r"
      using at None by (simp add: safe_replace_attempts_Cons r_def w2_def)
    have run2: "run (\<lambda>e. True) w1 w2" unfolding w2_def by (rule after_failure_run) simp
    have run3: "run (\<lambda>e. True) w2 (snd r)" unfolding r_def by (rule safe_replace_attempts_any)
    have evs: "new_events w (snd r) = new_events w w1 @ new_events w1 w2 @ new_events w2 (snd r)"
      using events_split[OF run1 run_trans[OF run2 run3]] events_split[OF run2 run3] by simp
    from Cons[of w2] ev1 None after_failure_events[of w1 a]
    show ?thesis
      unfolding eq evs r_def[symmetric] w2_def[symmetric] Let_def
      by (auto simp: failed_calls_append sleeps_append split: if_splits)
  qed
qed

section \<open>The adaptive loop\<close>

lemma resizes_append: "resizes (xs @ ys) = resizes xs @ resizes ys"
  by (induction xs rule: resizes.induct) auto

lemma resizes_none: "(\<forall>e \<in> set evs. \<forall>nw nh ok. e \<noteq> EvResize nw nh ok) \<Longrightarrow> resizes evs = []"
  by (induction evs rule: resizes.induct) auto

lemma binary_compress_any: "run (\<lambda>e. True) w (snd (binary_compress cfg cd img tmp c w))"
  by (rule binary_compress_run) simp_all

lemma binary_compress_no_resize:
  "resizes (new_events w (snd (binary_compress cfg cd img tmp c w))) = []"
proof (rule resizes_none, intro ballI)
  fix e assume "e \<in> set (new_events w (snd (binary_compress cfg cd img tmp c w)))"
  then have "(\<exists>q ok. e = EvSave tmp q ok) \<or> (\<exists>n. e = EvGetSize tmp n)"
    by (rule run_events[rotated], intro binary_compress_run) auto
  then show "\<forall>nw nh ok. e \<noteq> EvResize nw nh ok" by auto
qed

lemma image_resize_events:
  "image_resize cd img nw nh w = (r, w1) \<Longrightarrow>
     new_events w w1 = [EvResize nw nh (r \<noteq> None)] \<and> logs w1 = logs w \<and>
     (\<forall>img'. r = Some img' \<longrightarrow> width img' = nw \<and> height img' = nh)"
  by (auto simp: image_resize_def new_events_def emit_def pop_fault_def split: list.splits if_splits)

lemma new_events_log [simp]: "new_events w (log_msg m w') = new_events w w'"
  by (simp add: new_events_def log_msg_def)

lemma adaptive_step_run:
  assumes "\<And>q ok. A (EvSave tmp q ok)" and "\<And>n. A (EvGetSize tmp n)"
    and "\<And>nw nh ok. A (EvResize nw nh ok)"
  shows "run A w (snd (adaptive_step cfg cd tmp c img w))"
proof -
  obtain fs ok w1 where bc: "binary_compress cfg cd img tmp c w = ((fs, ok), w1)"
    by (cases "binary_compress cfg cd img tmp c w") auto
  have run1: "run A w w1"
    using binary_compress_run[of A tmp w cfg cd img c, OF assms(1,2)] bc by simp
  obtain r w2 where rs: "image_resize cd img (width img * 9 div 10) (height img * 9 div 10) w1 = (r, w2)"
    by (cases "image_resize cd img (width img * 9 div 10) (height img * 9 div 10) w1")
  have run2: "run A w w2" by (rule run_trans[OF run1 image_resize_run[OF rs]]) (rule assms(3))
  show ?thesis
    using bc rs run1 run2
    by (auto simp: adaptive_step_def Let_def split: option.splits intro: run_log)
qed

lemma adaptive_step_cases:
  assumes bc: "binary_compress cfg cd img tmp c w = ((fs, ok), w1)"
    and rs: "image_resize cd img (width img * 9 div 10) (height img * 9 div 10) w1 = (r, w2)"
  shows "adaptive_step cfg cd tmp c img w =
     (if ok \<or> \<not> auto_resize cfg then (Break, w1)
      else if width img * 9 div 10 < MIN_DIMENSION \<or> height img * 9 div 10 < MIN_DIMENSION
      then (Break, log_msg (LogMinDimension (width img * 9 div 10) (height img * 9 div 10)) w1)
      else (case r of
              None \<Rightarrow> (Raised, w2)
            | Some img' \<Rightarrow>
                (Next img', log_msg (LogShrink (width img * 9 div 10) (height img * 9 div 10)) w2)))"
  using bc rs by (simp add: adaptive_step_def Let_def split: option.splits)

lemma adaptive_step_resizes:
  "(\<forall>d \<in> set (resizes (new_events w (snd (adaptive_step cfg cd tmp c img w)))).
       MIN_DIMENSION \<le> fst d \<and> MIN_DIMENSION \<le> snd d) \<and>
   (\<forall>img'. fst (adaptive_step cfg cd tmp c img w) = Next img' \<longrightarrow>
       MIN_DIMENSION \<le> width img' \<and> MIN_DIMENSION \<le> height img') \<and>
   (width img * 9 div 10 < MIN_DIMENSION \<or> height img * 9 div 10 < MIN_DIMENSION \<longrightarrow>
       fst (adaptive_step cfg cd tmp c img w) = Break \<and>
       resizes (new_events w (snd (adaptive_step cfg cd tmp c img w))) = [])"
proof -
  obtain fs ok w1 where bc: "binary_compress cfg cd img tmp c w = ((fs, ok), w1)"
    by (cases "binary_compress cfg cd img tmp c w") auto
  have run1: "run (\<lambda>e. True) w w1" using binary_compress_any[of w cfg cd img tmp c] bc by simp
  have none: "resizes (new_events w w1) = []"
    using binary_compress_no_resize[of w cfg cd img tmp c] bc by simp
  obtain r w2 where rs: "image_resize cd img (width img * 9 div 10) (height img * 9 div 10) w1 = (r, w2)"
    by (cases "image_resize cd img (width img * 9 div 10) (height img * 9 div 10) w1")
  have run2: "run (\<lambda>e. True) w1 w2" by (rule image_resize_run[OF rs]) simp
  note ev = image_resize_events[OF rs]
  have ev2: "resizes (new_events w w2) = [(width img * 9 div 10, height img * 9 div 10)]"
    unfolding events_split[OF run1 run2] using ev none by (simp add: resizes_append)
  note eq = adaptive_step_cases[OF bc rs]
  consider (brk) "ok \<or> \<not> auto_resize cfg"
    | (small) "\<not> (ok \<or> \<not> auto_resize cfg)"
        "width img * 9 div 10 < MIN_DIMENSION \<or> height img * 9 div 10 < MIN_DIMENSION"
    | (go) "\<not> (ok \<or> \<not> auto_resize cfg)"
        "\<not> (width img * 9 div 10 < MIN_DIMENSION \<or> height img * 9 div 10 < MIN_DIMENSION)"
    by blast
  then show ?thesis
  proof cases
    case brk
    then have "adaptive_step cfg cd tmp c img w = (Break, w1)" using eq by simp
    then show ?thesis using none by simp
  next
    case small
    then have "adaptive_step cfg cd tmp c img w =
        (Break, log_msg (LogMinDimension (width img * 9 div 10) (height img * 9 div 10)) w1)"
      using eq by simp
    then show ?thesis using none by simp
  next
    case go
    show ?thesis
    proof (cases r)
      case None
      with go eq have "adaptive_step cfg cd tmp c img w = (Raised, w2)" by simp
      then show ?thesis using ev2 go by simp
    next
      case (Some img')
      with go eq have "adaptive_step cfg cd tmp c img w =
          (Next img', log_msg (LogShrink (width img * 9 div 10) (height img * 9 div 10)) w2)"
        by simp
      then show ?thesis using ev2 go ev Some by simp
    qed
  qed
qed

lemma adaptive_loop_exit:
  "\<not> attempt < MAX_ATTEMPTS \<Longrightarrow> adaptive_loop cfg cd tmp c img attempt w = (Some img, w)"
  by (simp add: adaptive_loop.simps)

lemma adaptive_loop_step:
  "attempt < MAX_ATTEMPTS \<Longrightarrow>
     adaptive_loop cfg cd tmp c img attempt w =
       (case fst (adaptive_step cfg cd tmp c img w) of
          Break \<Rightarrow> (Some img, snd (adaptive_step cfg cd tmp c img w))
        | Raised \<Rightarrow> (None, snd (adaptive_step cfg cd tmp c img w))
        | Next img' \<Rightarrow>
            adaptive_loop cfg cd tmp c img' (attempt + 1) (snd (adaptive_step cfg cd tmp c img w)))"
  by (subst adaptive_loop.simps) (simp split: prod.splits iteration.splits)

lemma adaptive_loop_induct [consumes 0, case_names exit continue]:
  fixes cfg :: config and cd :: codec
  assumes exit: "\<And>img attempt w. \<not> attempt < MAX_ATTEMPTS \<Longrightarrow> Q img attempt w"
    and continue: "\<And>img attempt w. attempt < MAX_ATTEMPTS \<Longrightarrow>
        (\<And>img'. fst (adaptive_step cfg cd tmp c img w) = Next img' \<Longrightarrow>
            Q img' (attempt + 1) (snd (adaptive_step cfg cd tmp c img w))) \<Longrightarrow>
        Q img attempt w"
  shows "Q img attempt w"
proof -
  have "cfg' = cfg \<Longrightarrow> cd' = cd \<Longrightarrow> tmp' = tmp \<Longrightarrow> c' = c \<Longrightarrow> Q img attempt w"
    for cfg' cd' tmp' c'
  proof (induction cfg' cd' tmp' c' img attempt w rule: adaptive_loop.induct)
    case (1 cfg' cd' tmp' c' img attempt w)
    note eqs = "1.prems"
    show ?case
    proof (cases "attempt < MAX_ATTEMPTS")
      case False
      then show ?thesis by (rule exit)
    next
      case True
      show ?thesis
      proof (rule continue[OF True])
        fix img' assume nx: "fst (adaptive_step cfg cd tmp c img w) = Next img'"
        have "(Next img', snd (adaptive_step cfg cd tmp c img w)) = adaptive_step cfg' cd' tmp' c' img w"
          using nx eqs by (metis prod.collapse)
        from "1.IH"[OF True this refl eqs]
        show "Q img' (attempt + 1) (snd (adaptive_step cfg cd tmp c img w))" .
      qed
    qed
  qed
  then show ?thesis by simp
qed

lemma adaptive_loop_run:
  assumes "\<And>q ok. A (EvSave tmp q ok)" and "\<And>n. A (EvGetSize tmp n)"
    and "\<And>nw nh ok. A (EvResize nw nh ok)"
  shows "run A w (snd (adaptive_loop cfg cd tmp c img attempt w))"
proof (induction img attempt w rule: adaptive_loop_induct[where cfg=cfg and cd=cd and tmp=tmp and c=c])
  case (exit img attempt w)
  then show ?case by (simp add: adaptive_loop_exit run_refl)
next
  case (continue img attempt w)
  note st = adaptive_step_run[of A tmp w cfg cd c img, OF assms]
  show ?case
    unfolding adaptive_loop_step[OF continue(1)]
    using st continue(2)
    by (cases "fst (adaptive_step cfg cd tmp c img w)") (auto intro: run_trans)
qed

lemma adaptive_loop_any: "run (\<lambda>e. True) w (snd (adaptive_loop cfg cd tmp c img attempt w))"
  by (rule adaptive_loop_run) simp_all

lemma adaptive_step_any: "run (\<lambda>e. True) w (snd (adaptive_step cfg cd tmp c img w))"
  by (rule adaptive_step_run) simp_all

lemma adaptive_loop_resizes:
  "(\<forall>d \<in> set (resizes (new_events w (snd (adaptive_loop cfg cd tmp c img attempt w)))).
       MIN_DIMENSION \<le> fst d \<and> MIN_DIMENSION \<le> snd d) \<and>
   (\<forall>img'. fst (adaptive_loop cfg cd tmp c img attempt w) = Some img' \<longrightarrow>
       img' = img \<or> MIN_DIMENSION \<le> width img' \<and> MIN_DIMENSION \<le> height img')"
proof (induction img attempt w rule: adaptive_loop_induct[where cfg=cfg and cd=cd and tmp=tmp and c=c])
  case (exit img attempt w)
  then show ?case by (simp add: adaptive_loop_exit new_events_self)
next
  case (continue img attempt w)
  note st = adaptive_step_resizes[of w cfg cd tmp c img]
  show ?case
  proof (cases "fst (adaptive_step cfg cd tmp c img w)")
    case Break
    with st show ?thesis by (simp add: adaptive_loop_step[OF continue(1)])
  next
    case Raised
    with st show ?thesis by (simp add: adaptive_loop_step[OF continue(1)])
  next
    case (Next img')
    note ih = continue(2)[OF Next]
    have ev: "new_events w (snd (adaptive_loop cfg cd tmp c img' (attempt + 1) (snd (adaptive_step cfg cd tmp c img w)))) =
        new_events w (snd (adaptive_step cfg cd tmp c img w)) @
        new_events (snd (adaptive_step cfg cd tmp c img w))
          (snd (adaptive_loop cfg cd tmp c img' (attempt + 1) (snd (adaptive_step cfg cd tmp c img w))))"
      by (rule events_split[OF adaptive_step_any adaptive_loop_any])
    show ?thesis
      unfolding adaptive_loop_step[OF continue(1)] Next iteration.case ev
      using st ih Next by (auto simp: resizes_append)
  qed
qed

lemma example_config_simps:
  "target_size_kb example_config = 1" "backup example_config = False"
  "auto_resize example_config = True" "max_dimension example_config = 0"
  by (simp_all add: example_config_def)

lemma example_codec_simps:
  "decode example_codec b = Some (example_image, ''PNG'')"
  "encode example_codec img q = replicate (nat q * 16) 0"
  "resample example_codec img nw nh = pixels img"
  "decode heavy_codec b = Some (example_image, ''PNG'')"
  "encode heavy_codec img q = replicate (nat q * 1024) 0"
  "resample heavy_codec img nw nh = pixels img"
  by (simp_all add: example_codec_def heavy_codec_def)

lemma heavy_adaptive_step:
  assumes "faults w = []"
  shows "adaptive_step example_config heavy_codec tmp c img w =
    (if width img * 9 div 10 < MIN_DIMENSION \<or> height img * 9 div 10 < MIN_DIMENSION
     then (Break, log_msg (LogMinDimension (width img * 9 div 10) (height img * 9 div 10))
             (snd (binary_compress example_config heavy_codec img tmp c w)))
     else (Next (img\<lparr>width := width img * 9 div 10, height := height img * 9 div 10\<rparr>),
           log_msg (LogShrink (width img * 9 div 10) (height img * 9 div 10))
             (emit (EvResize (width img * 9 div 10) (height img * 9 div 10) True)
                (snd (binary_compress example_config heavy_codec img tmp c w)))))"
  using assms
  by (simp add: adaptive_step_def heavy_binary_compress[OF assms] example_config_simps Let_def
        image_resize_def pop_fault_def example_codec_simps MIN_DIMENSION_def)

section \<open>The steps of \<open>process_single_image\<close>\<close>

lemma steps_1_5_run:
  assumes A: "\<And>ok. A (EvChmod p ok)" "\<And>n. A (EvGetSize p n)" "\<And>ok. A (EvOpen p ok)"
    "\<And>ok. A (EvConvert ok)" "\<And>nw nh ok. A (EvResize nw nh ok)"
  shows "run A w (snd (steps_1_5 cfg cd p w))"
proof -
  obtain b w1 where cr: "clear_readonly p w = (b, w1)" by (cases "clear_readonly p w")
  have r1: "run A w w1" by (rule clear_readonly_run[OF cr]) (rule A)
  obtain n w2 where gs: "os_path_getsize p w1 = (n, w2)" by (cases "os_path_getsize p w1")
  have r2: "run A w w2" by (rule run_trans[OF r1 os_path_getsize_run[OF gs]]) (rule A)
  obtain i w3 where io: "image_open cd p w2 = (i, w3)" by (cases "image_open cd p w2")
  have r3: "run A w w3" by (rule run_trans[OF r2 image_open_run[OF io]]) (rule A)
  show ?thesis
  proof (cases "b \<and> n \<noteq> None \<and> i \<noteq> None")
    case False
    then show ?thesis
      using cr gs io r1 r2 r3
      by (auto simp: steps_1_5_def split: bool.splits option.splits intro: run_log)
  next
    case True
    then obtain sz img0 fmt where v: "b" "n = Some sz" "i = Some (img0, fmt)" by auto
    obtain c w4 where cv: "convert_to_rgb cd img0 w3 = (c, w4)" by (cases "convert_to_rgb cd img0 w3")
    have r4: "run A w w4" by (rule run_trans[OF r3 convert_to_rgb_run[OF cv]]) (rule A)
    show ?thesis
    proof (cases c)
      case None
      then show ?thesis using cr gs io cv v r4 by (simp add: steps_1_5_def)
    next
      case (Some img)
      have r5: "run A w w5" if "image_resize cd img nw nh w4 = (z, w5)" for nw nh z w5
        using that by (rule run_trans[OF r4 image_resize_run]) (rule A)
      show ?thesis
        using cr gs io cv v Some r4
        by (auto simp: steps_1_5_def Let_def split: prod.splits option.splits
            intro: run_log r5)
    qed
  qed
qed

lemma make_backup_run:
  assumes "\<And>ok. A (EvCopy p (p @ ''.bak'') ok)"
  shows "run A w (make_backup cfg p w)"
  using assms
  by (auto simp: make_backup_def run_refl split: prod.splits option.splits
      intro: run_log shutil_copy2_run)

lemma cleanup_attempts_logs: "logs (cleanup_attempts as t w) = logs w"
proof (induction as arbitrary: w)
  case Nil
  show ?case by simp
next
  case (Cons a as)
  show ?case
    by (auto simp: attempts_simps Cons os_remove_def pop_fault_def emit_def time_sleep_def
        split: prod.splits option.splits list.splits if_splits)
qed

lemma clear_readonly_logs:
  "clear_readonly p w = (True, w1) \<Longrightarrow> logs w1 = logs w"
  by (auto simp: clear_readonly_def os_defs split: if_splits prod.splits option.splits list.splits)

lemma os_path_getsize_logs: "logs (snd (os_path_getsize p w)) = logs w"
  by (auto simp: os_defs split: if_splits prod.splits option.splits list.splits)

lemma image_open_logs: "logs (snd (image_open cd p w)) = logs w"
  by (auto simp: image_open_def os_defs split: if_splits prod.splits option.splits list.splits)

lemma convert_to_rgb_logs:
  "logs (snd (convert_to_rgb cd img w)) = logs w \<or>
   logs (snd (convert_to_rgb cd img w)) = logs w @ [LogConvertFailed]"
  by (auto simp: convert_to_rgb_def os_defs split: if_splits prod.splits option.splits list.splits)

lemma steps_1_5_logs:
  assumes "steps_1_5 cfg cd p w = (Continue (init_s, img, False), w1)"
  shows "logs w1 = logs w \<or> logs w1 = logs w @ [LogConvertFailed]"
proof -
  obtain wa where a: "clear_readonly p w = (True, wa)"
    using assms by (cases "clear_readonly p w") (auto simp: steps_1_5_def split: bool.splits)
  obtain n wb where b: "os_path_getsize p wa = (Some n, wb)"
    using assms a by (cases "os_path_getsize p wa") (auto simp: steps_1_5_def split: option.splits)
  obtain i0 f wc where c: "image_open cd p wb = (Some (i0, f), wc)"
    using assms a b by (cases "image_open cd p wb") (auto simp: steps_1_5_def split: option.splits)
  have d: "convert_to_rgb cd i0 wc = (Some img, w1)"
    using assms a b c
    by (cases "convert_to_rgb cd i0 wc")
      (auto simp: steps_1_5_def Let_def split: option.splits if_splits prod.splits)
  have "logs wc = logs w"
    using clear_readonly_logs[OF a] os_path_getsize_logs[of p wa] image_open_logs[of cd p wb] b c
    by simp
  then show ?thesis using convert_to_rgb_logs[of cd i0 wc] d by simp
qed

lemma tmp_file_neq: "tmp_file_of p \<noteq> p"
  by (simp add: tmp_file_of_def)

lemma clear_readonly_False:
  "clear_readonly p w = (False, w1) \<Longrightarrow>
     files w1 = files w \<and> logs w1 = logs w @ [LogChmodFailed] \<and> new_events w w1 = [EvChmod p False]"
  by (auto simp: clear_readonly_def os_chmod_def pop_fault_def emit_def log_msg_def new_events_def
      split: if_splits prod.splits option.splits list.splits)

lemma later_step_overwrites:
  "\<not> later_step_call tmp e \<Longrightarrow> q \<noteq> tmp \<Longrightarrow> \<not> overwrites q e"
  by (cases e) auto

lemma run_content:
  "run A w w' \<Longrightarrow> (\<And>e. A e \<Longrightarrow> \<not> overwrites q e) \<Longrightarrow>
     map_option content (files w' q) = map_option content (files w q)"
  unfolding run_def by (elim exE conjE) (erule allE[of _ q], auto)

text \<open>The format name that \<open>decode\<close> reports reaches no call.\<close>

lemma decode_update_calls:
  "image_save (cd\<lparr>decode := d\<rparr>) = image_save cd"
  "image_resize (cd\<lparr>decode := d\<rparr>) = image_resize cd"
  "convert_to_rgb (cd\<lparr>decode := d\<rparr>) = convert_to_rgb cd"
  "encode_attempt (cd\<lparr>decode := d\<rparr>) = encode_attempt cd"
  "final_encode cfg (cd\<lparr>decode := d\<rparr>) = final_encode cfg cd"
  by (auto simp: image_save_def image_resize_def convert_to_rgb_def rgb_pixels_def
      encode_attempt_def final_encode_def fun_eq_iff split: prod.splits option.splits)

lemma decode_update_bs_loop:
  "bs_loop cfg (cd\<lparr>decode := d\<rparr>) img tmp c low high bq fs w =
     bs_loop cfg cd img tmp c low high bq fs w"
proof (induction low high bq fs w rule: bs_loop_induct[where cd=cd and img=img and tmp=tmp and cfg=cfg and c=c])
  case (exit low high bq fs w)
  then show ?case by (simp add: bs_loop_exit)
next
  case (shrink_high low high bq fs w sz w1)
  have ea: "encode_attempt (cd\<lparr>decode := d\<rparr>) img tmp ((low + high) div 2) w = (sz, w1)"
    using shrink_high(2) by (simp add: decode_update_calls)
  show ?case
    unfolding bs_loop_shrink[OF shrink_high(1,2,3)] bs_loop_shrink[OF shrink_high(1) ea shrink_high(3)]
    by (rule shrink_high(4))
next
  case (raise_low low high bq fs w sz w1)
  have ea: "encode_attempt (cd\<lparr>decode := d\<rparr>) img tmp ((low + high) div 2) w = (sz, w1)"
    using raise_low(2) by (simp add: decode_update_calls)
  show ?case
    unfolding bs_loop_raise[OF raise_low(1,2,3)] bs_loop_raise[OF raise_low(1) ea raise_low(3)]
    by (rule raise_low(4))
qed

lemma decode_update_adaptive_step:
  "adaptive_step cfg (cd\<lparr>decode := d\<rparr>) tmp c img w = adaptive_step cfg cd tmp c img w"
  by (simp add: adaptive_step_def binary_compress_def decode_update_bs_loop decode_update_calls
      cong: prod.case_cong option.case_cong if_cong)

lemma decode_update_adaptive_loop:
  "adaptive_loop cfg (cd\<lparr>decode := d\<rparr>) tmp c img attempt w =
     adaptive_loop cfg cd tmp c img attempt w"
proof (induction img attempt w rule: adaptive_loop_induct[where cfg=cfg and cd=cd and tmp=tmp and c=c])
  case (exit img attempt w)
  then show ?case by (simp add: adaptive_loop_exit)
next
  case (continue img attempt w)
  show ?case
    unfolding adaptive_loop_step[OF continue(1)] decode_update_adaptive_step
    using continue(2)
    by (cases "fst (adaptive_step cfg cd tmp c img w)") simp_all
qed

lemma decode_update_steps_1_5:
  assumes "\<forall>b. map_option fst (d b) = map_option fst (decode cd b)"
  shows "steps_1_5 cfg (cd\<lparr>decode := d\<rparr>) p w = steps_1_5 cfg cd p w"
proof -
  obtain b w1 where cr: "clear_readonly p w = (b, w1)" by (cases "clear_readonly p w")
  obtain n w2 where gs: "os_path_getsize p w1 = (n, w2)" by (cases "os_path_getsize p w1")
  have io: "snd (image_open (cd\<lparr>decode := d\<rparr>) p w2) = snd (image_open cd p w2) \<and>
      map_option fst (fst (image_open (cd\<lparr>decode := d\<rparr>) p w2)) = map_option fst (fst (image_open cd p w2))"
    using assms[rule_format, of "content (the (files (snd (pop_fault w2)) p))"]
    by (auto simp: image_open_def split: prod.splits option.splits)
  obtain i w3 where i: "image_open cd p w2 = (i, w3)" by (cases "image_open cd p w2")
  obtain i' w3' where i': "image_open (cd\<lparr>decode := d\<rparr>) p w2 = (i', w3')"
    by (cases "image_open (cd\<lparr>decode := d\<rparr>) p w2")
  from io i i' have same: "w3' = w3" "map_option fst i' = map_option fst i" by simp_all
  show ?thesis
    using cr gs i i' same
    by (cases i; cases i')
       (auto simp: steps_1_5_def decode_update_calls Let_def split: bool.splits
          cong: prod.case_cong option.case_cong if_cong)
qed

lemmas job_defs = process_single_image_def try_body_def steps_1_5_def steps_6_11_def
  clear_readonly_def image_open_def convert_to_rgb_def make_backup_def
  is_jpg_path_def endswith_def str_lower_def lower_char_def out_path_of_def splitext_root_def
  tmp_file_of_def

lemma quiet_overwrites: "quiet p e \<Longrightarrow> \<not> overwrites p e"
  by (cases e) auto

lemma quiet_guarded:
  "\<forall>e \<in> set xs. quiet p e \<Longrightarrow> deletes_guarded p s d ys \<Longrightarrow> deletes_guarded p s d (xs @ ys)"
  by (induction xs) auto

lemma quiet_installed:
  "\<forall>e \<in> set xs. quiet p e \<Longrightarrow> EvReplace s d True \<in> set xs \<Longrightarrow> deletes_guarded p s d (xs @ ys)"
  by (induction xs) auto

lemma phases_quiet: "run (quiet p) w w' \<Longrightarrow> phases p w w'"
  by (simp add: phases_def)

lemma phases_log: "phases p w w' \<Longrightarrow> phases p w (log_msg m w')"
  unfolding phases_def by (auto intro: run_log)

lemma phases_prefix:
  assumes "run (quiet p) w w0" and "phases p w0 w'"
  shows "phases p w w'"
  using assms(2) unfolding phases_def
proof (elim disjE exE conjE)
  assume "run (quiet p) w0 w'"
  then show "run (quiet p) w w' \<or> (\<exists>wm. run (quiet p) w wm \<and>
      EvReplace (tmp_file_of p) (out_path_of p) True \<in> set (new_events w wm) \<and> run (\<lambda>e. True) wm w')"
    using assms(1) by (blast intro: run_trans)
next
  fix wm
  assume a: "run (quiet p) w0 wm"
    "EvReplace (tmp_file_of p) (out_path_of p) True \<in> set (new_events w0 wm)"
    "run (\<lambda>e. True) wm w'"
  have "EvReplace (tmp_file_of p) (out_path_of p) True \<in> set (new_events w wm)"
    using a(2) by (simp add: events_split[OF assms(1) a(1)])
  with a run_trans[OF assms(1) a(1)]
  show "run (quiet p) w w' \<or> (\<exists>wm. run (quiet p) w wm \<and>
      EvReplace (tmp_file_of p) (out_path_of p) True \<in> set (new_events w wm) \<and> run (\<lambda>e. True) wm w')"
    by blast
qed

lemma phases_suffix:
  assumes "phases p w w'" and "run (quiet p) w' w''"
  shows "phases p w w''"
  using assms(1) unfolding phases_def
proof (elim disjE exE conjE)
  assume "run (quiet p) w w'"
  from run_trans[OF this assms(2)]
  show "run (quiet p) w w'' \<or> (\<exists>wm. run (quiet p) w wm \<and>
      EvReplace (tmp_file_of p) (out_path_of p) True \<in> set (new_events w wm) \<and> run (\<lambda>e. True) wm w'')"
    by blast
next
  fix wm
  assume a: "run (quiet p) w wm"
    "EvReplace (tmp_file_of p) (out_path_of p) True \<in> set (new_events w wm)"
    "run (\<lambda>e. True) wm w'"
  from a(1,2) run_trans[OF a(3) run_any[OF assms(2)]]
  show "run (quiet p) w w'' \<or> (\<exists>wm. run (quiet p) w wm \<and>
      EvReplace (tmp_file_of p) (out_path_of p) True \<in> set (new_events w wm) \<and> run (\<lambda>e. True) wm w'')"
    by blast
qed

lemma safe_replace_installs:
  assumes "safe_replace src dst w = (True, w')"
  shows "EvReplace src dst True \<in> set (new_events w w')"
proof -
  from safe_replace_attempts_events[of "[0, 1, 2, 3, 4]" src dst w] assms
  have "new_events w w' \<noteq> [] \<and> last (new_events w w') = EvReplace src dst True"
    by (simp add: Let_def safe_replace_def)
  then show ?thesis by (metis last_in_set)
qed

lemma steps_6_11_unfold:
  assumes "adaptive_loop cfg cd (tmp_file_of p)
        (if is_resized \<or> \<not> is_jpg_path p then PosInf else KB init_s) img 0 (make_backup cfg p w) =
        (r, w2)"
    and "safe_replace (tmp_file_of p) (out_path_of p) w2 = (ok, w3)"
    and "os_path_getsize (out_path_of p) w3 = (n, w4)"
  shows "steps_6_11 cfg cd p (init_s, img, is_resized) w =
     (if is_jpg_path p \<and> \<not> is_resized \<and> init_s \<le> of_int (target_size_kb cfg)
      then (Return, log_msg (LogAlreadySatisfied p init_s) w)
      else if r = None then (Raise, w2)
      else if \<not> ok then (Return, log_msg (LogSaveFailed p) w3)
      else if n = None then (Raise, w4)
      else if p \<noteq> out_path_of p
      then (Return, delete_original_attempts [0, 1, 2] p
              (log_msg (LogDone (out_path_of p) (of_nat (the n) / 1024)) w4))
      else (Return, log_msg (LogDone (out_path_of p) (of_nat (the n) / 1024)) w4))"
proof (cases "is_jpg_path p \<and> \<not> is_resized \<and> init_s \<le> of_int (target_size_kb cfg)")
  case True
  then show ?thesis by (simp add: steps_6_11_def)
next
  case False
  then show ?thesis
    using assms
    by (cases r; cases ok; cases n; cases "p = out_path_of p")
       (auto simp: steps_6_11_def Let_def)
qed

lemma steps_6_11_phases:
  assumes neq: "out_path_of p \<noteq> p"
  shows "phases p w (snd (steps_6_11 cfg cd p st w))"
proof -
  obtain init_s img is_resized where st: "st = (init_s, img, is_resized)" by (cases st)
  define ceil where "ceil = (if is_resized \<or> \<not> is_jpg_path p then PosInf else KB init_s)"
  define w1 where "w1 = make_backup cfg p w"
  obtain r w2 where al: "adaptive_loop cfg cd (tmp_file_of p) ceil img 0 w1 = (r, w2)"
    by (cases "adaptive_loop cfg cd (tmp_file_of p) ceil img 0 w1")
  obtain ok w3 where sr: "safe_replace (tmp_file_of p) (out_path_of p) w2 = (ok, w3)"
    by (cases "safe_replace (tmp_file_of p) (out_path_of p) w2")
  obtain n w4 where gs: "os_path_getsize (out_path_of p) w3 = (n, w4)"
    by (cases "os_path_getsize (out_path_of p) w3")
  note eq = steps_6_11_unfold[OF al[unfolded ceil_def w1_def] sr gs]
  have tmp: "tmp_file_of p \<noteq> p" by (rule tmp_file_neq)
  have r0: "run (quiet p) w (log_msg m w)" for m by (rule run_log[OF run_refl])
  have r1: "run (quiet p) w w1" unfolding w1_def by (rule make_backup_run) simp
  have "run (quiet p) w1 (snd (adaptive_loop cfg cd (tmp_file_of p) ceil img 0 w1))"
    by (rule adaptive_loop_run) (simp_all add: tmp)
  then have r2: "run (quiet p) w w2" using al r1 by (auto intro: run_trans)
  have "run (quiet p) w2 (snd (safe_replace (tmp_file_of p) (out_path_of p) w2))"
    unfolding safe_replace_def by (rule safe_replace_attempts_run) (simp_all add: tmp neq)
  then have r3': "run (quiet p) w2 w3" using sr by simp
  have r3: "run (quiet p) w w3" by (rule run_trans[OF r2 r3'])
  have r4: "run (\<lambda>e. True) w3 w4" by (rule os_path_getsize_run[OF gs]) simp
  have r5: "run (\<lambda>e. True) w3 (delete_original_attempts [0, 1, 2] p
      (log_msg (LogDone (out_path_of p) x) w4))" for x
    by (rule run_trans[OF r4 run_log0[OF delete_original_attempts_run]]) simp_all
  have inst: "EvReplace (tmp_file_of p) (out_path_of p) True \<in> set (new_events w w3)" if "ok"
    using safe_replace_installs[of "tmp_file_of p" "out_path_of p" w2 w3] sr that
    by (simp add: events_split[OF r2 r3'])
  have later: "phases p w w'" if "ok" "run (\<lambda>e. True) w3 w'" for w'
    unfolding phases_def using r3 inst that by blast
  show ?thesis
    unfolding st eq
    using phases_quiet[OF r0] phases_quiet[OF r2] phases_quiet[OF run_log[OF r3]]
      later[OF _ r4] later[OF _ r5] later[OF _ run_log[OF r4]]
    by (simp add: neq[symmetric])
qed

lemma process_single_image_phases:
  assumes neq: "out_path_of p \<noteq> p"
  shows "phases p w (process_single_image cfg cd p w)"
proof -
  have tmp: "tmp_file_of p \<noteq> p" by (rule tmp_file_neq)
  obtain f w0 where s15: "steps_1_5 cfg cd p w = (f, w0)" by (cases "steps_1_5 cfg cd p w")
  have "run (quiet p) w (snd (steps_1_5 cfg cd p w))"
    by (rule steps_1_5_run) simp_all
  then have r1: "run (quiet p) w w0" using s15 by simp
  have body: "phases p w (snd (try_body cfg cd p w))"
  proof (cases f)
    case Return
    then show ?thesis using r1 s15 by (simp add: try_body_def phases_quiet)
  next
    case Raise
    then show ?thesis using r1 s15 by (simp add: try_body_def phases_quiet)
  next
    case (Continue st)
    then have "try_body cfg cd p w = steps_6_11 cfg cd p st w0"
      using s15 by (simp add: try_body_def)
    then show ?thesis
      using phases_prefix[OF r1 steps_6_11_phases[OF neq]] by simp
  qed
  obtain g wb where tb: "try_body cfg cd p w = (g, wb)" by (cases "try_body cfg cd p w")
  have fin: "phases p w (cleanup_attempts [0, 1, 2] (tmp_file_of p) w')" if "phases p w w'" for w'
    by (rule phases_suffix[OF that cleanup_attempts_run]) (simp_all add: tmp)
  from body tb have b: "phases p w wb" by simp
  show ?thesis
    using fin[OF b] fin[OF phases_log[OF b]] tb
    by (cases g) (simp_all add: process_single_image_def)
qed

text \<open>The float arithmetic of step 5 on numerals: an image of 2140 by 100 pixels with a
  long-edge limit of 1080 becomes 1079 by 50 (the exact quotient would give 1080), and
  the height of an image of 52920 by 49 pixels becomes 0, which \<^verbatim>\<open>resize\<close> refuses.\<close>

lemma bit_length_numeral:
  "bit_length 0 = 0" "bit_length (Suc 0) = 1"
  "bit_length (numeral (Num.Bit0 n)) = Suc (bit_length (numeral n))"
  "bit_length (numeral (Num.Bit1 n)) = Suc (bit_length (numeral n))"
  by (simp_all add: bit_length.simps[of "numeral (Num.Bit0 n)"]
      bit_length.simps[of "numeral (Num.Bit1 n)"] bit_length.simps[of 0]
      bit_length.simps[of "Suc 0"])

lemmas float_defs = float_trunc_def float_mul_def float_of_nat_def round_ratio_def
  shift_left_def Let_def bit_length_numeral

lemma step_5_float_examples:
  "round_ratio 1 3 = (6004799503160661, - 54)"
  "float_trunc (float_mul (float_of_nat 2140) (round_ratio 1080 2140)) = 1079"
  "float_trunc (float_mul (float_of_nat 100) (round_ratio 1080 2140)) = 50"
  "float_trunc (float_mul (float_of_nat 52920) (round_ratio 1080 52920)) = 1080"
  "float_trunc (float_mul (float_of_nat 49) (round_ratio 1080 52920)) = 0"
  by (simp_all add: float_defs)

lemma image_resize_empty:
  "fst (image_resize cd img nw 0 w) = None" "fst (image_resize cd img 0 nh w) = None"
  by (simp_all add: image_resize_def split: prod.splits)

lemma encode_attempt_fault:
  "faults w \<noteq> [] \<Longrightarrow> hd (faults w) \<Longrightarrow>
     encode_attempt cd img tmp q w =
       (PosInf, w\<lparr>faults := tl (faults w), trace := trace w @ [EvSave tmp q False],
                  logs := logs w @ [LogEncodeFailed q]\<rparr>)"
  by (cases "faults w") (simp_all add: prim_defs)

lemma failing_binary_compress:
  assumes "faults w = True # True # True # True # True # True # True # fs"
  shows "binary_compress cfg cd img tmp c w =
     ((PosInf, False),
      w\<lparr>faults := fs,
        trace := trace w @ [EvSave tmp 52 False, EvSave tmp 30 False, EvSave tmp 19 False,
          EvSave tmp 14 False, EvSave tmp 11 False, EvSave tmp 10 False, EvSave tmp 10 False],
        logs := logs w @ [LogEncodeFailed 52, LogEncodeFailed 30, LogEncodeFailed 19,
          LogEncodeFailed 14, LogEncodeFailed 11, LogEncodeFailed 10, LogFinalEncodeFailed]\<rparr>)"
  unfolding binary_compress_unfold
  using assms
  by (simp add: bs_loop_shrink_eval bs_loop_raise_eval bs_loop_exit encode_attempt_fault MIN_Q_def
      final_encode_def image_save_def pop_fault_def emit_def log_msg_def)

lemma strict_config_simps:
  "target_size_kb strict_config = 1" "backup strict_config = False"
  "auto_resize strict_config = False" "max_dimension strict_config = 0"
  by (simp_all add: strict_config_def example_config_def)

lemmas run_defs = job_defs os_defs attempts_simps adaptive_loop_step adaptive_step_def
  safe_replace_def MAX_ATTEMPTS_def Let_def example_config_simps strict_config_simps
  example_codec_simps example_image_def

section \<open>The claims about \<open>_binary_compress\<close>\<close>

text \<open>
  Claim C1, as stated: \<open>_binary_compress\<close> returns the smallest-size encoding below the
  ceiling, the size it returns being the minimum over all encode attempts that were
  strictly below the ceiling when one exists. This fails. With 16 bytes per quality step,
  a target of 1 KB and no ceiling, the attempt at quality 52 measures 13/16 KB, below the
  ceiling, and the function returns 1 KB, the size of its final encode at quality 64.
\<close>

theorem binary_compress_not_minimum_counterexample:
  "fst (fst (binary_compress example_config example_codec example_image ''t'' PosInf empty_world)) = KB 1 \<and>
   KB (13 / 16) \<in> set (measured (new_events empty_world
       (snd (binary_compress example_config example_codec example_image ''t'' PosInf empty_world)))) \<and>
   kb_less (KB (13 / 16)) PosInf \<and> kb_less (KB (13 / 16)) (KB 1)"
  by (simp add: example_binary_compress empty_world_simps new_events_def)

text \<open>
  Claim C1, amended: the smallest size among the loop's encode attempts strictly below
  the ceiling is what the loop tracks in \<open>found_size\<close> (which stays infinite when no
  attempt is below the ceiling), and it is not what the function returns: the size
  returned is the size measured by the final encode at quality \<open>max MIN_Q high\<close>, in the
  world the loop leaves, infinite when that encode raises.
\<close>

theorem binary_compress_tracks_minimum_returns_final:
  "let r = bs_loop cfg cd img tmp c MIN_Q 95 95 PosInf w;
       hi = fst (snd (fst r));
       found_size = snd (snd (snd (fst r)));
       ms = measured (new_events w (snd r))
   in fst (fst (binary_compress cfg cd img tmp c w)) =
        fst (encode_attempt cd img tmp (max MIN_Q hi) (snd r)) \<and>
      (found_size = PosInf \<and> (\<forall>s \<in> set ms. \<not> kb_less s c) \<or>
       found_size \<in> set ms \<and> kb_less found_size c \<and>
         (\<forall>s \<in> set ms. kb_less s c \<longrightarrow> kb_le found_size s))"
proof -
  define r where "r = bs_loop cfg cd img tmp c MIN_Q 95 95 PosInf w"
  define ms where "ms = measured (new_events w (snd r))"
  have found: "snd (snd (snd (fst r))) = foldl (keep_best c) PosInf ms"
    unfolding r_def ms_def by (rule bs_loop_found)
  have size: "fst (fst (binary_compress cfg cd img tmp c w)) =
        fst (encode_attempt cd img tmp (max MIN_Q (fst (snd (fst r)))) (snd r))"
    by (simp add: binary_compress_unfold final_encode_size r_def)
  have none: "\<not> kb_less s c" if "kb_le PosInf s" for s
    using that by (cases s) auto
  from keep_best_fold[of c PosInf ms]
  have "foldl (keep_best c) PosInf ms = PosInf \<and> (\<forall>s \<in> set ms. \<not> kb_less s c) \<or>
       foldl (keep_best c) PosInf ms \<in> set ms \<and> kb_less (foldl (keep_best c) PosInf ms) c \<and>
         (\<forall>s \<in> set ms. kb_less s c \<longrightarrow> kb_le (foldl (keep_best c) PosInf ms) s)"
    using none by blast
  with size show ?thesis
    unfolding Let_def r_def[symmetric] ms_def[symmetric] found by blast
qed

theorem binary_compress_tracks_minimum_returns_final_witness:
  "snd (snd (snd (fst (bs_loop example_config example_codec example_image ''t'' (KB 1) MIN_Q 95 95
      PosInf empty_world)))) = KB (13 / 16) \<and>
   fst (fst (binary_compress example_config example_codec example_image ''t'' (KB 1) empty_world)) =
     KB 1"
proof -
  have "measured (new_events empty_world (snd (bs_loop example_config example_codec example_image
      ''t'' (KB 1) MIN_Q 95 95 PosInf empty_world))) =
      [KB (13 / 16), KB (37 / 32), KB (63 / 64), KB (17 / 16), KB (65 / 64), KB 1]"
    by (simp add: example_search empty_world_simps new_events_def)
  with binary_compress_tracks_minimum_returns_final
    [of example_config example_codec example_image "''t''" "KB 1" empty_world,
      unfolded Let_def, THEN conjunct2]
  have "snd (snd (snd (fst (bs_loop example_config example_codec example_image ''t'' (KB 1) MIN_Q 95 95
      PosInf empty_world)))) = KB (13 / 16)"
    by auto
  then show ?thesis
    by (simp add: example_binary_compress empty_world_simps)
qed

text \<open>
  Claim C5: the quality of the final encode of \<open>_binary_compress\<close>, the last
  \<^verbatim>\<open>img.save\<close> it makes, is \<open>max MIN_Q high\<close> for the upper bound \<open>high\<close> the loop ends
  with, and lies in the range from \<open>MIN_Q = 10\<close> to 95; so does the quality of every
  other save of the call.
\<close>

theorem binary_compress_final_quality:
  "let hi = fst (snd (fst (bs_loop cfg cd img tmp c MIN_Q 95 95 PosInf w)));
       qs = saved_qualities (new_events w (snd (binary_compress cfg cd img tmp c w)))
   in qs \<noteq> [] \<and> last qs = max MIN_Q hi \<and> MIN_Q = 10 \<and> 10 \<le> last qs \<and> last qs \<le> 95 \<and>
      (\<forall>q \<in> set qs. 10 \<le> q \<and> q \<le> 95)"
proof -
  define r where "r = bs_loop cfg cd img tmp c MIN_Q 95 95 PosInf w"
  define hi where "hi = fst (snd (fst r))"
  define w2 where "w2 = snd (final_encode cfg cd img tmp hi (snd r))"
  have hi95: "hi \<le> 95"
    using bs_loop_bounds[of MIN_Q cfg cd img tmp c 95 95 PosInf w] by (simp add: hi_def r_def)
  have loopq: "\<forall>q \<in> set (saved_qualities (new_events w (snd r))). 10 \<le> q \<and> q \<le> 95"
    using bs_loop_qualities[of w cfg cd img tmp c MIN_Q 95 95 PosInf] by (simp add: r_def MIN_Q_def)
  have fin: "saved_qualities (new_events (snd r) w2) = [max MIN_Q hi]"
    by (simp add: w2_def final_encode_events)
  have split: "saved_qualities (new_events w (snd (binary_compress cfg cd img tmp c w))) =
      saved_qualities (new_events w (snd r)) @ [max MIN_Q hi]"
    by (subst binary_compress_events)
       (simp add: saved_qualities_append binary_compress_unfold final_encode_events r_def hi_def)
  show ?thesis
    unfolding Let_def split r_def[symmetric] hi_def[symmetric]
    using hi95 loopq by (auto simp: MIN_Q_def)
qed

theorem binary_compress_final_quality_witness:
  "last (saved_qualities (new_events empty_world
      (snd (binary_compress example_config example_codec example_image ''t'' PosInf empty_world)))) = 64 \<and>
   fst (snd (fst (bs_loop example_config example_codec example_image ''t'' PosInf MIN_Q 95 95 PosInf
      empty_world))) = 64 \<and>
   max MIN_Q 64 = 64"
  using binary_compress_final_quality
    [of example_config example_codec example_image "''t''" PosInf empty_world]
  by (simp add: Let_def example_search example_binary_compress empty_world_simps new_events_def)

text \<open>
  Claim C6: for a fixed image, scratch path and target, and ceilings \<open>c2 \<le> c1\<close>, the final
  size returned with ceiling \<open>c2\<close> is at most the one returned with ceiling \<open>c1\<close>. Both
  runs start in the same world, so the encoder answers a given quality in the same way
  in both. (The two sizes are equal: the ceiling does not reach the returned size.)
\<close>

theorem binary_compress_ceiling_monotone:
  "kb_le c2 c1 \<Longrightarrow>
     kb_le (fst (fst (binary_compress cfg cd img tmp c2 w))) (fst (fst (binary_compress cfg cd img tmp c1 w)))"
  by (simp add: binary_compress_ceiling[of cfg cd img tmp c2 w c1] kb_le_refl)

theorem binary_compress_ceiling_monotone_witness:
  "kb_le (KB 1) PosInf \<and>
   kb_le (fst (fst (binary_compress example_config example_codec example_image ''t'' (KB 1) empty_world)))
     (fst (fst (binary_compress example_config example_codec example_image ''t'' PosInf empty_world))) \<and>
   fst (fst (binary_compress example_config example_codec example_image ''t'' PosInf empty_world)) = KB 1"
  using binary_compress_ceiling_monotone
    [of "KB 1" PosInf example_config example_codec example_image "''t''" empty_world]
  by (simp add: example_binary_compress empty_world_simps)

text \<open>
  Claim C10: the loop of \<open>_binary_compress\<close> terminates on every input. The function
  \<open>bs_loop\<close> is total (its termination proof uses the measure \<open>high + 1 - low\<close>, which
  every iteration decreases by moving \<open>high\<close> to \<open>mid - 1\<close> or \<open>low\<close> to \<open>mid + 1\<close>);
  started on the interval from \<open>MIN_Q\<close> to 95 it makes at most 7 iterations, one
  \<^verbatim>\<open>img.save\<close> each, whatever sizes are measured, and it ends with \<open>high < low\<close>.
\<close>

theorem bs_loop_bounded_iterations:
  "length (saved_qualities (new_events w (snd (bs_loop cfg cd img tmp c MIN_Q 95 bq fs w)))) \<le> 7 \<and>
   fst (snd (fst (bs_loop cfg cd img tmp c MIN_Q 95 bq fs w))) <
     fst (fst (bs_loop cfg cd img tmp c MIN_Q 95 bq fs w))"
proof
  show "length (saved_qualities (new_events w (snd (bs_loop cfg cd img tmp c MIN_Q 95 bq fs w)))) \<le> 7"
    by (rule bs_loop_count) (simp add: MIN_Q_def)
  show "fst (snd (fst (bs_loop cfg cd img tmp c MIN_Q 95 bq fs w))) <
     fst (fst (bs_loop cfg cd img tmp c MIN_Q 95 bq fs w))"
    using bs_loop_bounds[of MIN_Q cfg cd img tmp c 95 bq fs w] by (simp add: MIN_Q_def)
qed

theorem bs_loop_bounded_iterations_witness:
  "length (saved_qualities (new_events empty_world
      (snd (bs_loop example_config example_codec example_image ''t'' PosInf MIN_Q 95 95 PosInf
         empty_world)))) = 6 \<and>
   fst (snd (fst (bs_loop example_config example_codec example_image ''t'' PosInf MIN_Q 95 95 PosInf
      empty_world))) = 64"
  using bs_loop_bounded_iterations
    [of empty_world example_config example_codec example_image "''t''" PosInf 95 PosInf]
  by (simp add: example_search empty_world_simps new_events_def)

section \<open>The claim about \<open>_safe_replace\<close>\<close>

text \<open>
  Claim C8, as stated: when the destination exists with read-only attributes,
  \<open>_safe_replace\<close> clears them before it attempts the removal, and it retries up to 5
  times with a short fixed backoff. The first half fails: on a read-only destination whose
  removal raises every time, the calls made are five \<^verbatim>\<open>os.remove\<close> with four sleeps
  between them and no \<^verbatim>\<open>os.chmod\<close>, and the destination is read-only afterwards.
\<close>

theorem safe_replace_no_chmod_counterexample:
  "os_path_exists ''a.jpg'' locked_world \<and> \<not> os_access_W_OK ''a.jpg'' locked_world \<and>
   safe_replace ''a.tmp'' ''a.jpg'' locked_world =
     (False, locked_world\<lparr>faults := [],
        trace := [EvRemove ''a.jpg'' False, EvSleep 200, EvRemove ''a.jpg'' False, EvSleep 200,
                  EvRemove ''a.jpg'' False, EvSleep 200, EvRemove ''a.jpg'' False, EvSleep 200,
                  EvRemove ''a.jpg'' False],
        logs := [LogReplaceFailed]\<rparr>) \<and>
   files (snd (safe_replace ''a.tmp'' ''a.jpg'' locked_world)) ''a.jpg'' =
     Some \<lparr>content = [1], writable = False\<rparr>"
  by (simp add: safe_replace_def attempts_simps locked_world_def os_defs)

text \<open>
  Claim C8, amended: \<open>_safe_replace\<close> never changes attributes: the only calls it makes
  are \<^verbatim>\<open>os.remove\<close> on the destination, \<^verbatim>\<open>os.replace\<close> of the source onto the destination
  and sleeps of 200 ms. It makes at most 5 attempts: when it returns \<open>True\<close> its last call
  is the successful \<^verbatim>\<open>os.replace\<close>, at most 4 attempts have failed before, each followed
  by one sleep, and nothing is logged; when it returns \<open>False\<close> exactly 5 attempts have
  failed, with 4 sleeps between them, and the failure is logged once.
\<close>

theorem safe_replace_retries:
  "let r = safe_replace src dst w; evs = new_events w (snd r) in
     (\<forall>e \<in> set evs. (\<exists>ok. e = EvRemove dst ok) \<or> (\<exists>ok. e = EvReplace src dst ok) \<or> e = EvSleep 200) \<and>
     failed_calls evs \<le> 5 \<and>
     (fst r \<longrightarrow> evs \<noteq> [] \<and> last evs = EvReplace src dst True \<and> failed_calls evs \<le> 4 \<and>
        sleeps evs = replicate (failed_calls evs) 200 \<and> logs (snd r) = logs w) \<and>
     (\<not> fst r \<longrightarrow> failed_calls evs = 5 \<and> sleeps evs = [200, 200, 200, 200] \<and>
        logs (snd r) = logs w @ [LogReplaceFailed])"
proof -
  define r where "r = safe_replace_attempts [0, 1, 2, 3, 4] src dst w"
  define evs where "evs = new_events w (snd r)"
  define n where "n = failed_calls evs"
  have calls: "\<forall>e \<in> set evs. (\<exists>ok. e = EvRemove dst ok) \<or> (\<exists>ok. e = EvReplace src dst ok) \<or> e = EvSleep 200"
    unfolding evs_def r_def
    by (intro ballI, erule run_events[rotated], rule safe_replace_attempts_run) auto
  note ev = safe_replace_attempts_events[of "[0, 1, 2, 3, 4]" src dst w, unfolded Let_def,
      folded r_def, folded evs_def, folded n_def]
  have ok: "evs \<noteq> [] \<and> last evs = EvReplace src dst True \<and> n \<le> 4 \<and>
        sleeps evs = replicate n 200 \<and> logs (snd r) = logs w" if "fst r"
  proof -
    from ev that have "n < 5" by simp
    then have "n = 0 \<or> n = 1 \<or> n = 2 \<or> n = 3 \<or> n = 4" by arith
    with ev that show ?thesis by (auto simp: numeral_eq_Suc)
  qed
  have bad: "n = 5 \<and> sleeps evs = [200, 200, 200, 200] \<and> logs (snd r) = logs w @ [LogReplaceFailed]"
    if "\<not> fst r"
    using ev that by simp
  have "n \<le> 5" using ok bad by (cases "fst r") auto
  with calls ok bad show ?thesis
    unfolding Let_def safe_replace_def r_def[symmetric] evs_def[symmetric] n_def[symmetric]
    by blast
qed

theorem safe_replace_retries_witness:
  "fst (safe_replace ''a.tmp'' ''a.jpg'' locked_world) = False \<and>
   failed_calls (new_events locked_world (snd (safe_replace ''a.tmp'' ''a.jpg'' locked_world))) = 5 \<and>
   sleeps (new_events locked_world (snd (safe_replace ''a.tmp'' ''a.jpg'' locked_world))) =
     [200, 200, 200, 200] \<and>
   fst (safe_replace ''a.tmp'' ''a.jpg'' (locked_world\<lparr>faults := []\<rparr>)) = True \<and>
   last (new_events (locked_world\<lparr>faults := []\<rparr>)
      (snd (safe_replace ''a.tmp'' ''a.jpg'' (locked_world\<lparr>faults := []\<rparr>)))) =
     EvReplace ''a.tmp'' ''a.jpg'' True"
  using safe_replace_retries[of "''a.tmp''" "''a.jpg''" locked_world]
    safe_replace_retries[of "''a.tmp''" "''a.jpg''" "locked_world\<lparr>faults := []\<rparr>"]
  by (simp add: safe_replace_def attempts_simps locked_world_def os_defs new_events_def)

section \<open>The claim about the adaptive loop\<close>

text \<open>
  Claim C4: the adaptive loop never replaces the current image by one whose width or
  height is below \<open>MIN_DIMENSION = 50\<close>. Every \<^verbatim>\<open>resize\<close> the loop calls has a target of at
  least 50 by 50, the image the loop ends with is the one it was given or has both
  dimensions at least 50, and when the next dimensions would fall below the floor the
  loop stops with the image it has and makes no \<^verbatim>\<open>resize\<close> call.
\<close>

theorem adaptive_loop_min_dimension:
  "let r = adaptive_loop cfg cd tmp c img attempt w in
     (\<forall>d \<in> set (resizes (new_events w (snd r))). MIN_DIMENSION \<le> fst d \<and> MIN_DIMENSION \<le> snd d) \<and>
     (\<forall>img'. fst r = Some img' \<longrightarrow>
        img' = img \<or> MIN_DIMENSION \<le> width img' \<and> MIN_DIMENSION \<le> height img') \<and>
     (attempt < MAX_ATTEMPTS \<and>
      (width img * 9 div 10 < MIN_DIMENSION \<or> height img * 9 div 10 < MIN_DIMENSION) \<longrightarrow>
        fst r = Some img \<and> resizes (new_events w (snd r)) = []) \<and>
     MIN_DIMENSION = 50"
  using adaptive_loop_resizes[of w cfg cd tmp c img attempt]
    adaptive_step_resizes[of w cfg cd tmp c img]
  by (auto simp: Let_def adaptive_loop_step MIN_DIMENSION_def)

theorem adaptive_loop_min_dimension_witness:
  "fst (adaptive_loop example_config heavy_codec ''t'' PosInf
         (example_image\<lparr>width := 60, height := 60\<rparr>) 0 empty_world) =
     Some (example_image\<lparr>width := 54, height := 54\<rparr>) \<and>
   resizes (new_events empty_world (snd (adaptive_loop example_config heavy_codec ''t'' PosInf
         (example_image\<lparr>width := 60, height := 60\<rparr>) 0 empty_world))) = [(54, 54)] \<and>
   MIN_DIMENSION \<le> 54 \<and>
   fst (adaptive_loop example_config heavy_codec ''t'' PosInf
         (example_image\<lparr>width := 54, height := 54\<rparr>) 0 empty_world) =
     Some (example_image\<lparr>width := 54, height := 54\<rparr>) \<and>
   (0::nat) < MAX_ATTEMPTS \<and> (54::nat) * 9 div 10 < MIN_DIMENSION"
  using adaptive_loop_min_dimension[of example_config heavy_codec "''t''" PosInf
      "example_image\<lparr>width := 60, height := 60\<rparr>" 0 empty_world]
    adaptive_loop_min_dimension[of example_config heavy_codec "''t''" PosInf
      "example_image\<lparr>width := 54, height := 54\<rparr>" 0 empty_world]
  by (simp add: adaptive_loop_step adaptive_loop_exit heavy_adaptive_step heavy_binary_compress
      empty_world_simps MAX_ATTEMPTS_def MIN_DIMENSION_def emit_def log_msg_def new_events_def
      example_image_def)

section \<open>The claims about \<open>process_single_image\<close>\<close>

text \<open>
  Claim C2: in every run of the job the original file is removed only after the
  replacement has been installed under its final output name; if \<open>_safe_replace\<close> fails
  or is never reached the original is never deleted, and deletion is attempted only when
  the output path differs from the original path. The code breaks this when the output
  path is the path of the original (an input whose name ends in a lower-case \<^verbatim>\<open>.jpg\<close>):
  \<open>_safe_replace\<close> removes its destination, here the original, before it renames the
  scratch file. For the input \<^verbatim>\<open>a.jpg\<close> of 2000 bytes with a target of 1 KB, auto-resize
  off and every encode raising, no scratch file exists, the original is removed, all five
  \<^verbatim>\<open>os.replace\<close> calls raise, \<open>_safe_replace\<close> returns \<open>False\<close>, and the original is
  gone with nothing in its place. The same run on \<^verbatim>\<open>a.png\<close>, whose output path is
  another path, keeps the original.
\<close>

theorem original_lost_in_place:
  "out_path_of ''a.jpg'' = ''a.jpg'' \<and>
   files (large_world ''a.jpg'' encoder_fails) ''a.jpg'' =
     Some \<lparr>content = replicate 2000 0, writable = True\<rparr> \<and>
   files (process_single_image strict_config example_codec ''a.jpg''
            (large_world ''a.jpg'' encoder_fails)) ''a.jpg'' = None \<and>
   trace (process_single_image strict_config example_codec ''a.jpg''
            (large_world ''a.jpg'' encoder_fails)) =
     [EvGetSize ''a.jpg'' (Some 2000), EvOpen ''a.jpg'' True,
      EvSave ''a.jpg.tmp'' 52 False, EvSave ''a.jpg.tmp'' 30 False,
      EvSave ''a.jpg.tmp'' 19 False, EvSave ''a.jpg.tmp'' 14 False,
      EvSave ''a.jpg.tmp'' 11 False, EvSave ''a.jpg.tmp'' 10 False,
      EvSave ''a.jpg.tmp'' 10 False, EvRemove ''a.jpg'' True,
      EvReplace ''a.jpg.tmp'' ''a.jpg'' False, EvSleep 200,
      EvReplace ''a.jpg.tmp'' ''a.jpg'' False, EvSleep 200,
      EvReplace ''a.jpg.tmp'' ''a.jpg'' False, EvSleep 200,
      EvReplace ''a.jpg.tmp'' ''a.jpg'' False, EvSleep 200,
      EvReplace ''a.jpg.tmp'' ''a.jpg'' False] \<and>
   logs (process_single_image strict_config example_codec ''a.jpg''
            (large_world ''a.jpg'' encoder_fails)) =
     [LogEncodeFailed 52, LogEncodeFailed 30, LogEncodeFailed 19, LogEncodeFailed 14,
      LogEncodeFailed 11, LogEncodeFailed 10, LogFinalEncodeFailed, LogReplaceFailed,
      LogSaveFailed ''a.jpg''] \<and>
   out_path_of ''a.png'' = ''a.jpg'' \<and>
   files (process_single_image strict_config example_codec ''a.png''
            (large_world ''a.png'' encoder_fails)) ''a.png'' =
     Some \<lparr>content = replicate 2000 0, writable = True\<rparr> \<and>
   logs (process_single_image strict_config example_codec ''a.png''
            (large_world ''a.png'' encoder_fails)) =
     [LogEncodeFailed 52, LogEncodeFailed 30, LogEncodeFailed 19, LogEncodeFailed 14,
      LogEncodeFailed 11, LogEncodeFailed 10, LogFinalEncodeFailed, LogReplaceFailed,
      LogSaveFailed ''a.png'']"
  by (simp add: run_defs large_world_def failing_binary_compress encoder_fails_def)

text \<open>
  The other path of the job, where the output path is not the path of the original (in
  the file system of this theory, where two paths that differ name two files): no removal
  of the original is attempted before the scratch file has been moved onto the output
  path successfully; and when that never happens (\<open>_safe_replace\<close> fails or is not
  reached) the original keeps its bytes and no call of the run removes or overwrites it.
  There the job does what claim C2 says.
\<close>

theorem original_removed_after_install:
  assumes neq: "out_path_of p \<noteq> p"
  shows "let w' = process_single_image cfg cd p w; evs = new_events w w' in
     deletes_guarded p (tmp_file_of p) (out_path_of p) evs \<and>
     (EvReplace (tmp_file_of p) (out_path_of p) True \<notin> set evs \<longrightarrow>
        map_option content (files w' p) = map_option content (files w p) \<and>
        (\<forall>e \<in> set evs. quiet p e))"
proof -
  define w' where "w' = process_single_image cfg cd p w"
  have ph: "phases p w w'" unfolding w'_def by (rule process_single_image_phases[OF neq])
  then show ?thesis
    unfolding Let_def w'_def[symmetric] phases_def
  proof (elim disjE exE conjE)
    assume r: "run (quiet p) w w'"
    have q: "\<forall>e \<in> set (new_events w w'). quiet p e"
      using run_events[OF r] by blast
    from quiet_guarded[OF q, of "tmp_file_of p" "out_path_of p" "[]"]
    have "deletes_guarded p (tmp_file_of p) (out_path_of p) (new_events w w')" by simp
    moreover have "map_option content (files w' p) = map_option content (files w p)"
      by (rule run_content[OF r]) (rule quiet_overwrites)
    ultimately show "deletes_guarded p (tmp_file_of p) (out_path_of p) (new_events w w') \<and>
     (EvReplace (tmp_file_of p) (out_path_of p) True \<notin> set (new_events w w') \<longrightarrow>
        map_option content (files w' p) = map_option content (files w p) \<and>
        (\<forall>e \<in> set (new_events w w'). quiet p e))"
      using q by blast
  next
    fix wm
    assume a: "run (quiet p) w wm"
      "EvReplace (tmp_file_of p) (out_path_of p) True \<in> set (new_events w wm)"
      "run (\<lambda>e. True) wm w'"
    have q: "\<forall>e \<in> set (new_events w wm). quiet p e"
      using run_events[OF a(1)] by blast
    have ev: "new_events w w' = new_events w wm @ new_events wm w'"
      by (rule events_split[OF a(1) a(3)])
    show "deletes_guarded p (tmp_file_of p) (out_path_of p) (new_events w w') \<and>
     (EvReplace (tmp_file_of p) (out_path_of p) True \<notin> set (new_events w w') \<longrightarrow>
        map_option content (files w' p) = map_option content (files w p) \<and>
        (\<forall>e \<in> set (new_events w w'). quiet p e))"
      unfolding ev using quiet_installed[OF q a(2)] a(2) by simp
  qed
qed

theorem original_removed_after_install_witness:
  "out_path_of ''a.png'' \<noteq> ''a.png'' \<and>
   deletes_guarded ''a.png'' ''a.png.tmp'' ''a.jpg''
     (trace (process_single_image example_config example_codec ''a.png'' (large_world ''a.png'' []))) \<and>
   EvRemove ''a.png'' True \<in>
     set (trace (process_single_image example_config example_codec ''a.png'' (large_world ''a.png'' []))) \<and>
   EvReplace ''a.png.tmp'' ''a.jpg'' True \<notin>
     set (trace (process_single_image strict_config example_codec ''a.png''
            (large_world ''a.png'' encoder_fails))) \<and>
   map_option content (files (process_single_image strict_config example_codec ''a.png''
            (large_world ''a.png'' encoder_fails)) ''a.png'') = Some (replicate 2000 0)"
proof -
  have neq: "out_path_of ''a.png'' \<noteq> ''a.png''"
    by (simp add: out_path_of_def splitext_root_def)
  have tr: "trace (large_world ''a.png'' fs) = []" for fs
    by (simp add: large_world_def)
  have ok: "EvRemove ''a.png'' True \<in>
     set (trace (process_single_image example_config example_codec ''a.png'' (large_world ''a.png'' [])))"
    by (simp add: run_defs large_world_def example_binary_compress)
  have bad: "EvReplace ''a.png.tmp'' ''a.jpg'' True \<notin>
     set (trace (process_single_image strict_config example_codec ''a.png''
            (large_world ''a.png'' encoder_fails)))"
    by (simp add: run_defs large_world_def failing_binary_compress encoder_fails_def)
  have out: "out_path_of ''a.png'' = ''a.jpg''" "tmp_file_of ''a.png'' = ''a.png.tmp''"
    by (simp_all add: out_path_of_def splitext_root_def tmp_file_of_def)
  have orig: "map_option content (files (large_world ''a.png'' encoder_fails) ''a.png'') =
      Some (replicate 2000 0)"
    by (simp add: large_world_def)
  from original_removed_after_install[OF neq, of example_config example_codec "large_world ''a.png'' []"]
    original_removed_after_install[OF neq, of strict_config example_codec
      "large_world ''a.png'' encoder_fails"]
    neq ok bad orig
  show ?thesis
    by (simp add: Let_def new_events_def tr out)
qed

text \<open>
  Claim C3: when the path ends in \<^verbatim>\<open>.jpg\<close> or \<^verbatim>\<open>.jpeg\<close> (in any letter case), steps 1 to
  5 reach the skip check without resizing, and the size on disk is within the target, the
  job ends there: the \<^verbatim>\<open>try\<close> body returns, the last log entry is the one notice and the
  only entry that may precede it is the warning of a failed colour conversion, no call
  of the backup, compression, replacement or deletion steps is made (the only removal it
  may attempt is the cleanup of a scratch file), and the bytes of every file but a
  leftover scratch file are as they were.
\<close>

theorem skip_check_noop:
  assumes reach: "steps_1_5 cfg cd p w = (Continue (init_s, img, False), w1)"
    and jpg: "is_jpg_path p" and fits: "init_s \<le> of_int (target_size_kb cfg)"
  shows "let w' = process_single_image cfg cd p w in
      fst (try_body cfg cd p w) = Return \<and>
      (logs w' = logs w @ [LogAlreadySatisfied p init_s] \<or>
       logs w' = logs w @ [LogConvertFailed, LogAlreadySatisfied p init_s]) \<and>
      (\<forall>q. q \<noteq> tmp_file_of p \<longrightarrow>
         map_option content (files w' q) = map_option content (files w q)) \<and>
      (\<forall>e \<in> set (new_events w w'). \<not> later_step_call (tmp_file_of p) e)"
proof -
  have ret: "fst (try_body cfg cd p w) = Return"
    using reach jpg fits by (simp add: try_body_def steps_6_11_def)
  define w2 where "w2 = log_msg (LogAlreadySatisfied p init_s) w1"
  define A where "A = (\<lambda>e. \<not> later_step_call (tmp_file_of p) e)"
  have eq: "process_single_image cfg cd p w = cleanup_attempts [0, 1, 2] (tmp_file_of p) w2"
    using reach jpg fits
    by (simp add: process_single_image_def try_body_def steps_6_11_def w2_def)
  have "run A w (snd (steps_1_5 cfg cd p w))"
    by (rule steps_1_5_run) (simp_all add: A_def)
  then have r1: "run A w w2" using reach by (simp add: w2_def run_log)
  have r2: "run A w2 (cleanup_attempts [0, 1, 2] (tmp_file_of p) w2)"
    by (rule cleanup_attempts_run) (simp_all add: A_def)
  note r = run_trans[OF r1 r2]
  have cont: "map_option content (files (cleanup_attempts [0, 1, 2] (tmp_file_of p) w2) q) =
      map_option content (files w q)" if "q \<noteq> tmp_file_of p" for q
    by (rule run_content[OF r]) (simp add: A_def later_step_overwrites that)
  have evs: "\<forall>e \<in> set (new_events w (cleanup_attempts [0, 1, 2] (tmp_file_of p) w2)).
      \<not> later_step_call (tmp_file_of p) e"
  proof (intro ballI)
    fix e assume "e \<in> set (new_events w (cleanup_attempts [0, 1, 2] (tmp_file_of p) w2))"
    from run_events[OF r this] show "\<not> later_step_call (tmp_file_of p) e"
      by (simp add: A_def)
  qed
  show ?thesis
    unfolding Let_def eq using ret cont evs steps_1_5_logs[OF reach]
    by (auto simp: cleanup_attempts_logs w2_def log_msg_def)
qed

theorem skip_check_noop_witness:
  "steps_1_5 example_config example_codec ''a.jpg'' jpg_world =
     (Continue (3 / 1024, example_image, False),
      jpg_world\<lparr>trace := [EvGetSize ''a.jpg'' (Some 3), EvOpen ''a.jpg'' True]\<rparr>) \<and>
   is_jpg_path ''a.jpg'' \<and>
   (3 / 1024 :: rat) \<le> of_int (target_size_kb example_config) \<and>
   logs (process_single_image example_config example_codec ''a.jpg'' jpg_world) =
     [LogAlreadySatisfied ''a.jpg'' (3 / 1024)] \<and>
   map_option content (files (process_single_image example_config example_codec ''a.jpg'' jpg_world)
      ''a.jpg'') = Some [1, 2, 3]"
proof -
  have reach: "steps_1_5 example_config example_codec ''a.jpg'' jpg_world =
     (Continue (3 / 1024, example_image, False),
      jpg_world\<lparr>trace := [EvGetSize ''a.jpg'' (Some 3), EvOpen ''a.jpg'' True]\<rparr>)"
    by (simp add: run_defs jpg_world_def)
  have jpg: "is_jpg_path ''a.jpg''"
    by (simp add: job_defs)
  have fits: "(3 / 1024 :: rat) \<le> of_int (target_size_kb example_config)"
    by (simp add: example_config_simps)
  have w: "logs jpg_world = []" "files jpg_world ''a.jpg'' = Some \<lparr>content = [1, 2, 3], writable = True\<rparr>"
    "''a.jpg'' \<noteq> tmp_file_of ''a.jpg''"
    by (simp_all add: jpg_world_def tmp_file_of_def)
  have lg: "logs (process_single_image example_config example_codec ''a.jpg'' jpg_world) =
     [LogAlreadySatisfied ''a.jpg'' (3 / 1024)]"
    by (simp add: run_defs jpg_world_def)
  from skip_check_noop[OF reach jpg fits] reach jpg fits w lg
  show ?thesis by (simp add: Let_def)
qed

text \<open>
  Claim C7, as stated: when the permission check fails the job aborts with no side
  effect on the file system (no backup, no output file, no deletion) and is counted as a
  failure, not as a success. Both parts fail. The \<^verbatim>\<open>finally\<close> block still runs and
  removes a scratch file left at the scratch path; and \<open>process_single_image\<close> returns
  normally, so \<open>wrapper\<close> counts the job in \<open>processed_count\<close>, which the final tally
  reports as the successes.
\<close>

theorem permission_failure_counted_counterexample:
  "fst (clear_readonly ''a.png'' readonly_world) = False \<and>
   files readonly_world ''a.png.tmp'' = Some \<lparr>content = [9], writable = True\<rparr> \<and>
   files (snd (wrapper example_config example_codec ''a.png''
      (\<lparr>processed_count = 0, failed_count = 0\<rparr>, readonly_world))) ''a.png.tmp'' = None \<and>
   trace (snd (wrapper example_config example_codec ''a.png''
      (\<lparr>processed_count = 0, failed_count = 0\<rparr>, readonly_world))) =
     [EvChmod ''a.png'' False, EvRemove ''a.png.tmp'' True] \<and>
   fst (wrapper example_config example_codec ''a.png''
      (\<lparr>processed_count = 0, failed_count = 0\<rparr>, readonly_world)) =
     \<lparr>processed_count = 1, failed_count = 0\<rparr> \<and>
   final_counts 1 (fst (wrapper example_config example_codec ''a.png''
      (\<lparr>processed_count = 0, failed_count = 0\<rparr>, readonly_world))) = (1, 0)"
  by (simp add: wrapper_def final_counts_def run_defs readonly_world_def)

text \<open>
  Claim C7, amended: when the permission check fails the job aborts at once: it logs
  the failed permission change and the permission error and nothing else, it makes no
  call of the backup, compression, replacement or deletion steps, and it leaves every
  file as it was except a scratch file left at the scratch path, which the cleanup
  removes. (How the job is counted is left out.)
\<close>

theorem permission_failure_aborts:
  assumes "fst (clear_readonly p w) = False"
  shows "let w' = process_single_image cfg cd p w in
      (\<forall>q. q \<noteq> tmp_file_of p \<longrightarrow> files w' q = files w q) \<and>
      logs w' = logs w @ [LogChmodFailed, LogPermissionError p] \<and>
      (\<forall>e \<in> set (new_events w w'). e = EvChmod p False \<or> \<not> later_step_call (tmp_file_of p) e)"
proof -
  obtain w1 where cr: "clear_readonly p w = (False, w1)"
    using assms by (cases "clear_readonly p w") auto
  note f = clear_readonly_False[OF cr]
  define w2 where "w2 = log_msg (LogPermissionError p) w1"
  define A where "A = (\<lambda>e. e = EvChmod p False \<or> (\<exists>ok. e = EvRemove (tmp_file_of p) ok) \<or> e = EvSleep 100)"
  have eq: "process_single_image cfg cd p w = cleanup_attempts [0, 1, 2] (tmp_file_of p) w2"
    using cr by (simp add: process_single_image_def try_body_def steps_1_5_def w2_def)
  have r1: "run A w w2"
    using run_new_events[of "\<lambda>e. True" w w1, OF clear_readonly_run[OF cr]] f
    by (simp add: run_def w2_def log_msg_def A_def)
  have r2: "run A w2 (cleanup_attempts [0, 1, 2] (tmp_file_of p) w2)"
    by (rule cleanup_attempts_run) (simp_all add: A_def)
  note r = run_trans[OF r1 r2]
  have files: "files (cleanup_attempts [0, 1, 2] (tmp_file_of p) w2) q = files w q"
    if "q \<noteq> tmp_file_of p" for q
    using r that unfolding run_def A_def by (elim exE conjE) (erule allE[of _ q], auto)
  have evs: "\<forall>e \<in> set (new_events w (cleanup_attempts [0, 1, 2] (tmp_file_of p) w2)).
      e = EvChmod p False \<or> \<not> later_step_call (tmp_file_of p) e"
  proof (intro ballI)
    fix e assume "e \<in> set (new_events w (cleanup_attempts [0, 1, 2] (tmp_file_of p) w2))"
    from run_events[OF r this] show "e = EvChmod p False \<or> \<not> later_step_call (tmp_file_of p) e"
      by (auto simp: A_def)
  qed
  show ?thesis
    unfolding Let_def eq using files evs f
    by (simp add: cleanup_attempts_logs w2_def log_msg_def)
qed

theorem permission_failure_aborts_witness:
  "fst (clear_readonly ''a.png'' readonly_world) = False \<and>
   files (process_single_image example_config example_codec ''a.png'' readonly_world) ''a.png'' =
     Some \<lparr>content = [1, 2, 3], writable = False\<rparr> \<and>
   logs (process_single_image example_config example_codec ''a.png'' readonly_world) =
     [LogChmodFailed, LogPermissionError ''a.png'']"
proof -
  have fails: "fst (clear_readonly ''a.png'' readonly_world) = False"
    by (simp add: run_defs readonly_world_def)
  have w: "logs readonly_world = []"
    "files readonly_world ''a.png'' = Some \<lparr>content = [1, 2, 3], writable = False\<rparr>"
    "''a.png'' \<noteq> tmp_file_of ''a.png''"
    by (simp_all add: readonly_world_def tmp_file_of_def)
  from permission_failure_aborts[OF fails, of example_config example_codec] fails w
  show ?thesis by (simp add: Let_def)
qed

text \<open>
  Claim C9: whether the job treats the source as a JPEG is decided by the path alone. The
  format name that decoding reports reaches nothing: two decoders that yield the same
  images and differ in the format names give the same run, and with a path that ends
  in \<^verbatim>\<open>.jpg\<close> or \<^verbatim>\<open>.jpeg\<close>, no resize and a size within the target, step 6 returns with
  the notice whatever the image and its format are. (The ceiling of the encode attempts
  is chosen in \<open>steps_6_11\<close> from \<open>is_jpg_path\<close> of the path and from \<open>is_resized\<close>.)
\<close>

theorem decoded_format_never_consulted:
  assumes "\<forall>b. map_option fst (d b) = map_option fst (decode cd b)"
  shows "process_single_image cfg (cd\<lparr>decode := d\<rparr>) p w = process_single_image cfg cd p w \<and>
    (is_jpg_path p \<and> init_s \<le> of_int (target_size_kb cfg) \<longrightarrow>
       steps_6_11 cfg (cd\<lparr>decode := d\<rparr>) p (init_s, img, False) w =
         (Return, log_msg (LogAlreadySatisfied p init_s) w))"
proof
  show "process_single_image cfg (cd\<lparr>decode := d\<rparr>) p w = process_single_image cfg cd p w"
    by (simp add: process_single_image_def try_body_def steps_6_11_def
        decode_update_steps_1_5[OF assms] decode_update_adaptive_loop
        cong: prod.case_cong option.case_cong flow.case_cong if_cong)
  show "is_jpg_path p \<and> init_s \<le> of_int (target_size_kb cfg) \<longrightarrow>
       steps_6_11 cfg (cd\<lparr>decode := d\<rparr>) p (init_s, img, False) w =
         (Return, log_msg (LogAlreadySatisfied p init_s) w)"
    by (simp add: steps_6_11_def)
qed

theorem decoded_format_never_consulted_witness:
  "map_option snd (decode example_codec [1, 2, 3]) = Some ''PNG'' \<and>
   process_single_image example_config
     (example_codec\<lparr>decode := \<lambda>b. Some (example_image, ''JPEG'')\<rparr>) ''a.jpg'' jpg_world =
     process_single_image example_config example_codec ''a.jpg'' jpg_world \<and>
   is_jpg_path ''a.jpg'' \<and>
   logs (process_single_image example_config example_codec ''a.jpg'' jpg_world) =
     [LogAlreadySatisfied ''a.jpg'' (3 / 1024)] \<and>
   files (process_single_image example_config example_codec ''a.jpg'' jpg_world) ''a.jpg'' =
     Some \<lparr>content = [1, 2, 3], writable = True\<rparr>"
proof -
  have agree: "\<forall>b. map_option fst (Some (example_image, ''JPEG'')) =
      map_option fst (decode example_codec b)"
    by (simp add: example_codec_simps)
  have run: "logs (process_single_image example_config example_codec ''a.jpg'' jpg_world) =
     [LogAlreadySatisfied ''a.jpg'' (3 / 1024)] \<and>
   files (process_single_image example_config example_codec ''a.jpg'' jpg_world) ''a.jpg'' =
     Some \<lparr>content = [1, 2, 3], writable = True\<rparr>"
    by (simp add: run_defs jpg_world_def)
  have jpg: "is_jpg_path ''a.jpg''"
    by (simp add: job_defs)
  from decoded_format_never_consulted[of "\<lambda>b. Some (example_image, ''JPEG'')" example_codec,
      OF agree, of example_config "''a.jpg''" jpg_world, THEN conjunct1] run jpg
  show ?thesis by (simp add: example_codec_simps)
qed

end
